theory Spec2Isabelle
  imports Complex_Main "HOL-Library.Log_Nat" "HOL-Library.Sublist"
begin

section \<open>Python primitives used by the resilient indexer\<close>

text \<open>
  The indexer of \<^verbatim>\<open>pageindex/resilient_indexer_gemini.py\<close> is embedded shallowly.
  Exceptions are values of the type \<open>error\<close>; an operation that can raise returns
  \<open>error + 'a\<close> with \<open>Inl\<close> for the exception.
\<close>

datatype error =
    ZeroDivisionError
  | OverflowError
  | JSONDecodeError
  | OSError
  | ExternalError string

subsection \<open>True division of integers and \<^verbatim>\<open>math.ceil\<close>\<close>

text \<open>
  \<^verbatim>\<open>a / b\<close> on two Python integers is the IEEE 754 binary64 number nearest to the
  exact quotient (ties to even); it raises \<^verbatim>\<open>ZeroDivisionError\<close> for \<open>b = 0\<close> and
  \<^verbatim>\<open>OverflowError\<close> when the rounded quotient exceeds the binary64 range. A float is
  represented by the rational it denotes (the sign of a zero is dropped: \<^verbatim>\<open>math.ceil\<close>
  does not see it).
\<close>

definition round_half_even :: "rat \<Rightarrow> int" where
  "round_half_even x =
     (let f = \<lfloor>x\<rfloor>; d = x - of_int f
      in if d < 1 / 2 then f
         else if 1 / 2 < d then f + 1
         else if even f then f else f + 1)"

text \<open>\<open>floor_log2 a b\<close> is the binary exponent of \<open>a / b\<close> for positive \<open>a\<close> and \<open>b\<close>.\<close>

definition floor_log2 :: "int \<Rightarrow> int \<Rightarrow> int" where
  "floor_log2 a b =
     (let d = bitlen a - bitlen b
      in if power_int 2 d \<le> (of_int a / of_int b :: rat) then d else d - 1)"

definition int_truediv :: "int \<Rightarrow> int \<Rightarrow> error + rat" where
  "int_truediv a b =
     (if b = 0 then Inl ZeroDivisionError
      else if a = 0 then Inr 0
      else
        let q = of_int \<bar>a\<bar> / of_int \<bar>b\<bar>;
            e = max (floor_log2 \<bar>a\<bar> \<bar>b\<bar>) (- 1022);
            u = power_int 2 (e - 52);
            y = of_int (round_half_even (q / u)) * u
        in if 2 ^ 1024 \<le> y then Inl OverflowError
           else Inr (if (a < 0) \<noteq> (b < 0) then - y else y))"

definition math_ceil :: "rat \<Rightarrow> int" where
  "math_ceil x = \<lceil>x\<rceil>"

text \<open>\<^verbatim>\<open>math.ceil(total_pages / max_page_num_each_node)\<close>, line 45.\<close>

definition group_count :: "int \<Rightarrow> int \<Rightarrow> error + int" where
  "group_count pages gsize =
     (case int_truediv pages gsize of
        Inl e \<Rightarrow> Inl e
      | Inr x \<Rightarrow> Inr (math_ceil x))"

subsection \<open>\<^verbatim>\<open>str\<close> of an integer\<close>

definition digit_char :: "nat \<Rightarrow> char" where
  "digit_char d = char_of (48 + d)"

fun digits :: "nat \<Rightarrow> string" where
  "digits n = (if n < 10 then [digit_char n] else digits (n div 10) @ [digit_char (n mod 10)])"

declare digits.simps [simp del]

definition str :: "int \<Rightarrow> string" where
  "str i = (if i < 0 then CHR ''-'' # digits (nat (- i)) else digits (nat i))"

subsection \<open>\<^verbatim>\<open>os.path.basename\<close> and \<^verbatim>\<open>os.path.join\<close> (POSIX)\<close>

definition basename :: "string \<Rightarrow> string" where
  "basename p = rev (takeWhile (\<lambda>c. c \<noteq> CHR ''/'') (rev p))"

definition path_join :: "string \<Rightarrow> string \<Rightarrow> string" where
  "path_join a b =
     (if b \<noteq> [] \<and> hd b = CHR ''/'' then b
      else if a = [] \<or> last a = CHR ''/'' then a @ b
      else a @ ''/'' @ b)"

section \<open>Data model\<close>

text \<open>
  The state dictionary of the indexer, with the five keys the code reads and writes. The
  segments returned by the extraction collaborator are opaque (\<open>'seg\<close>).
\<close>

record 'seg state =
  step :: string
  completed_groups :: "string list"
  toc_segments :: "'seg list"
  total_groups :: int
  total_pages :: int

text \<open>Of the command line settings only \<^verbatim>\<open>max_page_num_each_node\<close> is read by the indexer.\<close>

record opt =
  max_page_num_each_node :: int

record 'seg indexer =
  pdf_path :: string
  opt :: opt
  doc_name :: string
  state_path :: string
  state :: "'seg state"

text \<open>
  A checkpoint file holds either the complete JSON text of a state dictionary, or text
  that \<^verbatim>\<open>json.load\<close> rejects (an empty or truncated file, foreign content). JSON text of
  any other shape is outside this model.
\<close>

datatype 'seg checkpoint = Document "'seg state" | Undecodable

text \<open>
  What the indexer does to its surroundings is recorded in a trace. A call through
  \<^verbatim>\<open>call_with_backoff\<close> is recorded with the in-memory state and the content of the
  checkpoint file at the moment the call is issued.
\<close>

datatype 'seg call =
    Generate_toc_init string
  | Generate_toc_continue string string
  | Verify_toc "'seg list"

datatype 'seg event =
    Call "'seg call" "'seg state" "'seg checkpoint option"
  | Saved "'seg state"
  | Save_failed

record ('seg, 'x) world =
  disk :: "string \<Rightarrow> 'seg checkpoint option"
  trace :: "'seg event list"
  ext :: 'x

text \<open>
  \<^verbatim>\<open>open(path, 'w')\<close> followed by \<^verbatim>\<open>json.dump\<close> can fail at the \<^verbatim>\<open>open\<close>, which
  leaves the file as it was, or after it, when the file has been truncated and holds a
  proper prefix of the new text.
\<close>

datatype write_outcome = Written | Open_failed | Dump_failed

text \<open>
  The collaborators imported from \<^verbatim>\<open>pageindex\<close> and the file system are parameters. The
  collaborators that reach the external service depend on a hidden state \<open>'x\<close> and may
  raise.
\<close>

record ('seg, 'res, 'x) env =
  get_number_of_pages :: "string \<Rightarrow> error + int"
  generate_toc_init :: "string \<Rightarrow> opt \<Rightarrow> 'x \<Rightarrow> (error + unit) \<times> 'x"
  generate_toc_continue :: "string \<Rightarrow> string \<Rightarrow> opt \<Rightarrow> 'x \<Rightarrow> (error + 'seg) \<times> 'x"
  verify_toc :: "'seg list \<Rightarrow> opt \<Rightarrow> 'x \<Rightarrow> (error + 'res) \<times> 'x"
  storage :: "'x \<Rightarrow> write_outcome \<times> 'x"

type_synonym ('a, 'seg, 'x) proc =
  "'seg indexer \<times> ('seg, 'x) world \<Rightarrow> (error + 'a) \<times> 'seg indexer \<times> ('seg, 'x) world"

section \<open>The checkpoint store\<close>

definition default_state :: "'seg state" where
  "default_state =
     \<lparr>step = ''INITIALIZE'', completed_groups = [], toc_segments = [],
      total_groups = 0, total_pages = 0\<rparr>"

definition load_state :: "string \<Rightarrow> ('seg, 'x) world \<Rightarrow> error + 'seg state" where
  "load_state path w =
     (case disk w path of
        None \<Rightarrow> Inr default_state
      | Some (Document st) \<Rightarrow> Inr st
      | Some Undecodable \<Rightarrow> Inl JSONDecodeError)"

text \<open>\<^verbatim>\<open>__init__\<close>; the directories that \<^verbatim>\<open>os.makedirs\<close> creates are not modelled.\<close>

definition indexer_init ::
  "string \<Rightarrow> opt \<Rightarrow> string \<Rightarrow> ('seg, 'x) world \<Rightarrow> error + 'seg indexer" where
  "indexer_init pdf options work_dir w =
     (let dn = basename pdf;
          sp = path_join work_dir (dn @ ''_state.json'')
      in case load_state sp w of
           Inl e \<Rightarrow> Inl e
         | Inr st \<Rightarrow>
             Inr \<lparr>pdf_path = pdf, opt = options, doc_name = dn, state_path = sp, state = st\<rparr>)"

text \<open>
  \<^verbatim>\<open>_save_state\<close>. Whatever exception a failing write raises (\<^verbatim>\<open>OSError\<close>, or
  \<^verbatim>\<open>TypeError\<close> for a segment that JSON cannot encode) is represented by \<^verbatim>\<open>OSError\<close>.
\<close>

definition save_state :: "('seg, 'res, 'x) env \<Rightarrow> (unit, 'seg, 'x) proc" where
  "save_state env = (\<lambda>(self, w).
     case storage env (ext w) of
       (Open_failed, x) \<Rightarrow>
         (Inl OSError, self, w\<lparr>trace := trace w @ [Save_failed], ext := x\<rparr>)
     | (Dump_failed, x) \<Rightarrow>
         (Inl OSError, self,
          w\<lparr>disk := (disk w)(state_path self \<mapsto> Undecodable),
            trace := trace w @ [Save_failed], ext := x\<rparr>)
     | (Written, x) \<Rightarrow>
         (Inr (), self,
          w\<lparr>disk := (disk w)(state_path self \<mapsto> Document (state self)),
            trace := trace w @ [Saved (state self)], ext := x\<rparr>))"

section \<open>The orchestrator\<close>

text \<open>
  Modelled from the spec: \<^verbatim>\<open>call_with_backoff\<close> of \<^verbatim>\<open>pageindex/utils.py\<close>, which is not
  among the sources. Whatever it retries, its caller sees one outcome of the wrapped
  collaborator: a value, or an error that propagates. It never touches the checkpoint.
\<close>

definition call_with_backoff ::
  "'seg call \<Rightarrow> ('x \<Rightarrow> (error + 'a) \<times> 'x) \<Rightarrow> ('a, 'seg, 'x) proc" where
  "call_with_backoff c f = (\<lambda>(self, w).
     case f (ext w) of
       (r, x) \<Rightarrow>
         (r, self,
          w\<lparr>trace := trace w @ [Call c (state self) (disk w (state_path self))], ext := x\<rparr>))"

text \<open>Step 0 of \<^verbatim>\<open>run\<close>, lines 42 to 46.\<close>

definition count_pages :: "('seg, 'res, 'x) env \<Rightarrow> (unit, 'seg, 'x) proc" where
  "count_pages env = (\<lambda>(self, w).
     if total_pages (state self) = 0 then
       (case get_number_of_pages env (pdf_path self) of
          Inl e \<Rightarrow> (Inl e, self, w)
        | Inr n \<Rightarrow>
            let self1 = self\<lparr>state := (state self)\<lparr>total_pages := n\<rparr>\<rparr>
            in case group_count (total_pages (state self1)) (max_page_num_each_node (opt self1)) of
                 Inl e \<Rightarrow> (Inl e, self1, w)
               | Inr g \<Rightarrow> save_state env (self1\<lparr>state := (state self1)\<lparr>total_groups := g\<rparr>\<rparr>, w))
     else (Inr (), self, w))"

text \<open>Step 1, lines 49 to 54.\<close>

definition initial_toc :: "('seg, 'res, 'x) env \<Rightarrow> (unit, 'seg, 'x) proc" where
  "initial_toc env = (\<lambda>(self, w).
     if step (state self) = ''INITIALIZE'' then
       (case call_with_backoff (Generate_toc_init (pdf_path self))
               (generate_toc_init env (pdf_path self) (opt self)) (self, w) of
          (Inl e, s) \<Rightarrow> (Inl e, s)
        | (Inr u, self1, w1) \<Rightarrow>
            save_state env (self1\<lparr>state := (state self1)\<lparr>step := ''EXTRACT_NODES''\<rparr>\<rparr>, w1))
     else (Inr (), self, w))"

text \<open>Step 2, lines 81 to 100: the loop over \<^verbatim>\<open>range(1, total + 1)\<close>, then the phase advance.\<close>

fun extract_loop :: "('seg, 'res, 'x) env \<Rightarrow> int list \<Rightarrow> (unit, 'seg, 'x) proc" where
  "extract_loop env [] s = (Inr (), s)"
| "extract_loop env (i # is) (self, w) =
     (if str i \<in> set (completed_groups (state self)) then extract_loop env is (self, w)
      else
        case call_with_backoff (Generate_toc_continue (pdf_path self) (str i))
               (generate_toc_continue env (pdf_path self) (str i) (opt self)) (self, w) of
          (Inl e, s) \<Rightarrow> (Inl e, s)
        | (Inr segment, self1, w1) \<Rightarrow>
            let self2 = self1\<lparr>state := (state self1)
                          \<lparr>toc_segments := toc_segments (state self1) @ [segment]\<rparr>\<rparr>;
                self3 = self2\<lparr>state := (state self2)
                          \<lparr>completed_groups := completed_groups (state self2) @ [str i]\<rparr>\<rparr>
            in case save_state env (self3, w1) of
                 (Inl e, s) \<Rightarrow> (Inl e, s)
               | (Inr u, s) \<Rightarrow> extract_loop env is s)"

definition extract_nodes :: "('seg, 'res, 'x) env \<Rightarrow> (unit, 'seg, 'x) proc" where
  "extract_nodes env = (\<lambda>(self, w).
     if step (state self) = ''EXTRACT_NODES'' then
       (let total = total_groups (state self)
        in case extract_loop env [1..total] (self, w) of
             (Inl e, s) \<Rightarrow> (Inl e, s)
           | (Inr u, self1, w1) \<Rightarrow>
               save_state env (self1\<lparr>state := (state self1)\<lparr>step := ''VERIFY''\<rparr>\<rparr>, w1))
     else (Inr (), self, w))"

text \<open>
  Step 3 and the branch for a state found \<^verbatim>\<open>COMPLETED\<close>, lines 103 to 117. A state in any
  other step falls off the end of \<^verbatim>\<open>run\<close>, which then returns \<^verbatim>\<open>None\<close>.
\<close>

definition verify :: "('seg, 'res, 'x) env \<Rightarrow> ('res option, 'seg, 'x) proc" where
  "verify env = (\<lambda>(self, w).
     if step (state self) = ''VERIFY'' then
       (case call_with_backoff (Verify_toc (toc_segments (state self)))
               (verify_toc env (toc_segments (state self)) (opt self)) (self, w) of
          (Inl e, s) \<Rightarrow> (Inl e, s)
        | (Inr final_structure, s) \<Rightarrow> (Inr (Some final_structure), s))
     else if step (state self) = ''COMPLETED'' then
       (case call_with_backoff (Verify_toc (toc_segments (state self)))
               (verify_toc env (toc_segments (state self)) (opt self)) (self, w) of
          (Inl e, s) \<Rightarrow> (Inl e, s)
        | (Inr final_structure, s) \<Rightarrow> (Inr (Some final_structure), s))
     else (Inr None, self, w))"

definition run :: "('seg, 'res, 'x) env \<Rightarrow> ('res option, 'seg, 'x) proc" where
  "run env s =
     (case count_pages env s of
        (Inl e, s0) \<Rightarrow> (Inl e, s0)
      | (Inr u0, s0) \<Rightarrow>
          (case initial_toc env s0 of
             (Inl e, s1) \<Rightarrow> (Inl e, s1)
           | (Inr u1, s1) \<Rightarrow>
               (case extract_nodes env s1 of
                  (Inl e, s2) \<Rightarrow> (Inl e, s2)
                | (Inr u2, s2) \<Rightarrow> verify env s2)))"

text \<open>One invocation of the process: construct the indexer, then run it.\<close>

definition invoke ::
  "('seg, 'res, 'x) env \<Rightarrow> string \<Rightarrow> opt \<Rightarrow> string \<Rightarrow> ('seg, 'x) world \<Rightarrow>
     (error + 'res option) \<times> ('seg, 'x) world" where
  "invoke env pdf options work_dir w =
     (case indexer_init pdf options work_dir w of
        Inl e \<Rightarrow> (Inl e, w)
      | Inr self \<Rightarrow> (case run env (self, w) of (r, self1, w1) \<Rightarrow> (r, w1)))"

section \<open>Observations on a trace\<close>

fun extraction_calls :: "'seg event list \<Rightarrow> string list" where
  "extraction_calls [] = []"
| "extraction_calls (Call (Generate_toc_continue p g) st f # es) = g # extraction_calls es"
| "extraction_calls (e # es) = extraction_calls es"

fun verification_calls :: "'seg event list \<Rightarrow> 'seg list list" where
  "verification_calls [] = []"
| "verification_calls (Call (Verify_toc segs) st f # es) = segs # verification_calls es"
| "verification_calls (e # es) = verification_calls es"

fun saved_states :: "'seg event list \<Rightarrow> 'seg state list" where
  "saved_states [] = []"
| "saved_states (Saved st # es) = st # saved_states es"
| "saved_states (e # es) = saved_states es"

text \<open>A call is clean when the checkpoint file holds the in-memory state as it is issued.\<close>

fun clean :: "'seg event \<Rightarrow> bool" where
  "clean (Call c st f) = (f = Some (Document st))"
| "clean e = True"

section \<open>Notions used in the statements\<close>

text \<open>The checkpoint file of the indexer holds its in-memory state.\<close>

definition synced :: "'seg indexer \<Rightarrow> ('seg, 'x) world \<Rightarrow> bool" where
  "synced self w = (disk w (state_path self) = Some (Document (state self)))"

text \<open>The groups still to be extracted, as the strings passed to the collaborator.\<close>

definition pending :: "'seg state \<Rightarrow> string list" where
  "pending st =
     map str (filter (\<lambda>i. str i \<notin> set (completed_groups st)) [1..total_groups st])"

text \<open>A state has as many segments as completed groups.\<close>

definition balanced :: "'seg state \<Rightarrow> bool" where
  "balanced s = (length (toc_segments s) = length (completed_groups s))"

text \<open>The later state \<open>t\<close> keeps every segment and completed group of \<open>s\<close>, in place.\<close>

definition extends :: "'seg state \<Rightarrow> 'seg state \<Rightarrow> bool" where
  "extends s t =
     (prefix (toc_segments s) (toc_segments t) \<and>
      prefix (completed_groups s) (completed_groups t))"

text \<open>
  From \<open>s\<close> to \<open>t\<close> nothing is lost, the balance of segments and groups is kept, and
  the step \<^verbatim>\<open>COMPLETED\<close> is not entered.
\<close>

definition advance :: "'seg state \<Rightarrow> 'seg state \<Rightarrow> bool" where
  "advance s t =
     (extends s t \<and> (balanced s \<longrightarrow> balanced t) \<and>
      (step t = ''COMPLETED'' \<longrightarrow> step s = ''COMPLETED''))"

text \<open>The states saved on the way from \<open>s\<close> to \<open>t\<close> advance step by step.\<close>

definition chain :: "'seg state \<Rightarrow> 'seg event list \<Rightarrow> 'seg state \<Rightarrow> bool" where
  "chain s es t = sorted_wrt advance (s # saved_states es @ [t])"

text \<open>What a file that held \<open>c\<close> holds after the saves of \<open>es\<close>, none of which truncated it.\<close>

definition last_saved :: "'seg checkpoint option \<Rightarrow> 'seg event list \<Rightarrow> 'seg checkpoint option" where
  "last_saved c es =
     (if saved_states es = [] then c else Some (Document (last (saved_states es))))"

text \<open>
  After the events \<open>es\<close> the file \<open>p\<close> is undecodable, or it holds the last state saved,
  or it is as it was when nothing was saved.
\<close>

definition filed ::
  "('seg, 'x) world \<Rightarrow> 'seg event list \<Rightarrow> ('seg, 'x) world \<Rightarrow> string \<Rightarrow> bool" where
  "filed w es w' p =
     (disk w' p = Some Undecodable \<or> disk w' p = last_saved (disk w p) es)"

definition progress ::
  "'seg indexer \<Rightarrow> ('seg, 'x) world \<Rightarrow> 'seg event list \<Rightarrow> 'seg indexer \<Rightarrow>
     ('seg, 'x) world \<Rightarrow> bool" where
  "progress self w es self' w' =
     (trace w' = trace w @ es \<and> state_path self' = state_path self \<and>
      chain (state self) es (state self') \<and> filed w es w' (state_path self))"

text \<open>The state that the next load of a checkpoint file yields, if it yields one.\<close>

definition loaded :: "'seg checkpoint option \<Rightarrow> 'seg state" where
  "loaded c = (case c of Some (Document st) \<Rightarrow> st | _ \<Rightarrow> default_state)"

text \<open>What no step of the extraction loop changes.\<close>

definition same_settings :: "'seg indexer \<Rightarrow> 'seg indexer \<Rightarrow> bool" where
  "same_settings self self' =
     (pdf_path self' = pdf_path self \<and> opt self' = opt self \<and> doc_name self' = doc_name self \<and>
      state_path self' = state_path self \<and> step (state self') = step (state self) \<and>
      total_groups (state self') = total_groups (state self) \<and>
      total_pages (state self') = total_pages (state self))"

text \<open>The process is invoked once for each element of \<open>envs\<close>, on the same document.\<close>

fun lifetime ::
  "('seg, 'res, 'x) env list \<Rightarrow> string \<Rightarrow> opt \<Rightarrow> string \<Rightarrow> ('seg, 'x) world \<Rightarrow>
     ('seg, 'x) world" where
  "lifetime [] pdf options work_dir w = w"
| "lifetime (env # envs) pdf options work_dir w =
     lifetime envs pdf options work_dir (snd (invoke env pdf options work_dir w))"

text \<open>The indexer after the two appends of a loop iteration, and the events of the calls.\<close>

abbreviation appended :: "'seg indexer \<Rightarrow> int \<Rightarrow> 'seg \<Rightarrow> 'seg indexer" where
  "appended self i seg \<equiv> self\<lparr>state := (state self)
     \<lparr>toc_segments := toc_segments (state self) @ [seg],
      completed_groups := completed_groups (state self) @ [str i]\<rparr>\<rparr>"

abbreviation init_call :: "'seg indexer \<Rightarrow> ('seg, 'x) world \<Rightarrow> 'seg event" where
  "init_call self w \<equiv>
     Call (Generate_toc_init (pdf_path self)) (state self) (disk w (state_path self))"

abbreviation continue_call :: "'seg indexer \<Rightarrow> ('seg, 'x) world \<Rightarrow> int \<Rightarrow> 'seg event" where
  "continue_call self w i \<equiv>
     Call (Generate_toc_continue (pdf_path self) (str i)) (state self) (disk w (state_path self))"

abbreviation verify_call :: "'seg indexer \<Rightarrow> ('seg, 'x) world \<Rightarrow> 'seg event" where
  "verify_call self w \<equiv>
     Call (Verify_toc (toc_segments (state self))) (state self) (disk w (state_path self))"

section \<open>Concrete collaborators, disks and indexers\<close>

text \<open>
  Collaborators that never fail, for a document of \<open>n\<close> pages: the segment of group \<open>g\<close>
  is the text \<open>segment g\<close>, the final structure is the list of the segments. The hidden
  state counts the calls.
\<close>

definition reliable :: "int \<Rightarrow> (string, string list, nat) env" where
  "reliable n =
     \<lparr>get_number_of_pages = (\<lambda>p. Inr n),
      generate_toc_init = (\<lambda>p options x. (Inr (), Suc x)),
      generate_toc_continue = (\<lambda>p g options x. (Inr (''segment '' @ g), Suc x)),
      verify_toc = (\<lambda>segs options x. (Inr segs, Suc x)),
      storage = (\<lambda>x. (Written, x))\<rparr>"

text \<open>The same collaborators, on a disk that fails after truncating the file.\<close>

definition truncating :: "int \<Rightarrow> (string, string list, nat) env" where
  "truncating n = (reliable n)\<lparr>storage := (\<lambda>x. (Dump_failed, x))\<rparr>"

text \<open>Collaborators of which the extraction of group 3 fails for good.\<close>

definition interrupted :: "int \<Rightarrow> (string, string list, nat) env" where
  "interrupted n =
     (reliable n)\<lparr>generate_toc_continue :=
        (\<lambda>p g options x.
           if g = ''3'' then (Inl (ExternalError ''rate limit''), Suc x)
           else (Inr (''segment '' @ g), Suc x))\<rparr>"

text \<open>An empty disk, before any event.\<close>

definition blank :: "(string, nat) world" where
  "blank = \<lparr>disk = Map.empty, trace = [], ext = 0\<rparr>"

text \<open>A disk whose checkpoint for the document is not decodable.\<close>

definition corrupt :: "(string, nat) world" where
  "corrupt = blank\<lparr>disk := [''./tmp/doc.pdf_state.json'' \<mapsto> Undecodable]\<rparr>"

text \<open>The indexer that \<^verbatim>\<open>__init__\<close> builds on an empty disk, for groups of \<open>g\<close> pages.\<close>

definition fresh :: "int \<Rightarrow> string indexer" where
  "fresh g =
     \<lparr>pdf_path = ''/a/doc.pdf'', opt = \<lparr>max_page_num_each_node = g\<rparr>,
      doc_name = ''doc.pdf'', state_path = ''./tmp/doc.pdf_state.json'',
      state = default_state\<rparr>"

text \<open>An indexer that resumes with groups 1 and 2 of 3 completed.\<close>

definition resumed :: "string indexer" where
  "resumed =
     (fresh 10)\<lparr>state :=
        \<lparr>step = ''EXTRACT_NODES'', completed_groups = [''1'', ''2''],
         toc_segments = [''segment 1'', ''segment 2''], total_groups = 3, total_pages = 23\<rparr>\<rparr>"

text \<open>An indexer whose checkpoint was found in step \<^verbatim>\<open>COMPLETED\<close>.\<close>

definition finished :: "string indexer" where
  "finished =
     (fresh 10)\<lparr>state :=
        \<lparr>step = ''COMPLETED'', completed_groups = [''1'', ''2'', ''3''],
         toc_segments = [''segment 1'', ''segment 2'', ''segment 3''],
         total_groups = 3, total_pages = 23\<rparr>\<rparr>"

text \<open>A disk that holds the checkpoint of the resumed indexer.\<close>

definition checkpointed :: "(string, nat) world" where
  "checkpointed = blank\<lparr>disk := [state_path resumed \<mapsto> Document (state resumed)]\<rparr>"

text \<open>A document of 23 pages, in groups of 10, indexed from scratch without any failure.\<close>

definition full_run :: "(error + string list option) \<times> (string, nat) world" where
  "full_run =
     invoke (reliable 23) ''/a/doc.pdf'' \<lparr>max_page_num_each_node = 10\<rparr> ''./tmp'' blank"

section \<open>The group count\<close>

lemma round_half_even_le_ceiling: "round_half_even x \<le> \<lceil>x\<rceil>"
proof -
  have "x - of_int \<lfloor>x\<rfloor> < 1 / 2 \<Longrightarrow> \<lfloor>x\<rfloor> \<le> \<lceil>x\<rceil>" by linarith
  moreover have "x \<noteq> of_int \<lfloor>x\<rfloor> \<Longrightarrow> \<lfloor>x\<rfloor> + 1 \<le> \<lceil>x\<rceil>" by linarith
  ultimately show ?thesis
    unfolding round_half_even_def Let_def by (auto simp: floor_le_ceiling)
qed

lemma round_half_even_lower: "x - 1 / 2 \<le> of_int (round_half_even x)"
  unfolding round_half_even_def Let_def by (simp; linarith)

lemma floor_log2_bounds:
  assumes "0 < a" "0 < b"
  shows "power_int 2 (floor_log2 a b) \<le> (of_int a / of_int b :: rat)"
    and "(of_int a / of_int b :: rat) < power_int 2 (floor_log2 a b + 1)"
proof -
  let ?q = "of_int a / of_int b :: rat"
  let ?d = "bitlen a - bitlen b"
  have A: "1 \<le> bitlen a" and B: "1 \<le> bitlen b"
    using assms by (simp_all add: bitlen_alt_def)
  have a1: "(2::rat) ^ nat (bitlen a - 1) \<le> of_int a" and a2: "of_int a < (2::rat) ^ nat (bitlen a)"
    using bitlen_bounds[OF assms(1)] 
     apply (metis of_int_le_iff of_int_numeral of_int_power)
    using bitlen_bounds[OF assms(1)] 
    by (metis of_int_less_iff of_int_numeral of_int_power)
  have b1: "(2::rat) ^ nat (bitlen b - 1) \<le> of_int b" and b2: "of_int b < (2::rat) ^ nat (bitlen b)"
    using bitlen_bounds[OF assms(2)] 
     apply (metis of_int_le_iff of_int_numeral of_int_power)
    using bitlen_bounds[OF assms(2)] 
    by (metis of_int_less_iff of_int_numeral of_int_power)
  have pa: "(2::rat) ^ nat (bitlen a - 1) = power_int 2 (bitlen a - 1)" "(2::rat) ^ nat (bitlen a) = power_int 2 (bitlen a)"
    using A by (simp_all add: power_int_def)
  have pb: "(2::rat) ^ nat (bitlen b - 1) = power_int 2 (bitlen b - 1)" "(2::rat) ^ nat (bitlen b) = power_int 2 (bitlen b)"
    using B by (simp_all add: power_int_def)
  have bpos: "(0::rat) < of_int b" using assms by simp
  have lo: "power_int 2 (?d - 1) < ?q"
  proof -
    have "power_int 2 (?d - 1) * of_int b < power_int (2::rat) (?d - 1) * power_int 2 (bitlen b)"
      using b2 pb by (simp add: mult_strict_left_mono)
    also have "\<dots> = power_int 2 (bitlen a - 1)"
      by (simp flip: power_int_add)
    also have "\<dots> \<le> of_int a" using a1 pa by simp
    finally show ?thesis using bpos by (simp add: pos_less_divide_eq)
  qed
  have hi: "?q < power_int 2 (?d + 1)"
  proof -
    have "of_int a < power_int (2::rat) (bitlen a)" using a2 pa by simp
    also have "\<dots> = power_int 2 (?d + 1) * power_int 2 (bitlen b - 1)"
      by (simp flip: power_int_add)
    also have "\<dots> \<le> power_int 2 (?d + 1) * of_int b"
      using b1 pb by (simp add: mult_left_mono)
    finally show ?thesis using bpos by (simp add: pos_divide_less_eq)
  qed
  show "power_int 2 (floor_log2 a b) \<le> ?q"
    using lo by (auto simp: floor_log2_def Let_def)
  show "?q < power_int 2 (floor_log2 a b + 1)"
    using hi by (auto simp: floor_log2_def Let_def)
qed


lemma int_truediv_ceil:
  assumes a: "0 < a" "a < 2 ^ 53" and b: "0 < b" "b < 2 ^ 1075"
  shows "\<exists>y. int_truediv a b = Inr y \<and> \<lceil>y\<rceil> = \<lceil>of_int a / of_int b :: rat\<rceil>"
proof -
  define q :: rat where "q = of_int a / of_int b"
  define e where "e = max (floor_log2 a b) (- 1022)"
  define u :: rat where "u = power_int 2 (e - 52)"
  define N :: int where "N = 2 ^ nat (52 - e)"
  define c where "c = \<lceil>q\<rceil>"
  define n where "n = round_half_even (q / u)"
  have bpos: "(0::rat) < of_int b" using b by simp
  have qpos: "0 < q" using a b by (simp add: q_def)
  have q53: "q < 2 ^ 53"
  proof -
    have "of_int a \<le> (of_int a :: rat) * of_int b" using a b by (simp add: mult_le_cancel_left1)
    moreover have "(of_int a :: rat) < 2 ^ 53" using a(2) by (metis of_int_less_iff of_int_numeral of_int_power)
    ultimately show ?thesis using bpos unfolding q_def by (simp add: pos_divide_less_eq mult.commute)
  qed
  have L: "power_int 2 (floor_log2 a b) \<le> q" 
    using floor_log2_bounds(1)[OF a(1) b(1)] by (simp add: q_def)
  have e52: "e \<le> 52"
  proof (rule ccontr)
    assume "\<not> e \<le> 52"
    then have "53 \<le> floor_log2 a b" by (simp add: e_def)
    then have "power_int (2::rat) 53 \<le> power_int 2 (floor_log2 a b)"
      by (intro power_int_increasing) simp_all
    with L q53 show False by (simp add: power_int_def)
  qed
  have uN: "u = 1 / of_int N"
    using e52 by (simp add: u_def N_def power_int_def field_simps)
  have Npos: "0 < N" by (simp add: N_def)
  have m: "q / u = q * of_int N" by (simp add: uN)
  have b_small: "of_int b < 2 * (of_int N :: rat)"
  proof (cases "- 1022 \<le> floor_log2 a b")
    case True
    then have e: "e = floor_log2 a b" by (simp add: e_def)
    have "power_int 2 e * of_int b \<le> (of_int a :: rat)"
      using L bpos by (simp add: e q_def pos_le_divide_eq)
    also have "\<dots> < 2 ^ 53" using a(2) by (metis of_int_less_iff of_int_numeral of_int_power)
    also have "\<dots> = power_int 2 e * (2 * of_int N)"
    proof -
      have "Suc (nat (52 - e)) = nat (53 - e)" using e52 by arith
      then have "2 * (of_int N :: rat) = 2 ^ nat (53 - e)"
        by (simp add: N_def flip: power_Suc)
      also have "\<dots> = power_int 2 (53 - e)"
        using e52 by (simp add: power_int_def)
      finally have "power_int (2::rat) e * (2 * of_int N) = power_int 2 e * power_int 2 (53 - e)"
        by simp
      also have "\<dots> = power_int 2 53" by (simp flip: power_int_add)
      finally show ?thesis by (simp add: power_int_def)
    qed
    finally show ?thesis by simp
  next
    case False
    then have e: "e = - 1022" by (simp add: e_def)
    have "(of_int b :: rat) < 2 ^ 1075" using b(2) by (metis of_int_less_iff of_int_numeral of_int_power)
    also have "\<dots> = 2 * of_int N" by (simp add: N_def e)
    finally show ?thesis .
  qed
  have c: "of_int c - 1 < q" "q \<le> of_int c" unfolding c_def by linarith+
  have upper: "n \<le> c * N"
  proof -
    have "q * of_int N \<le> of_int (c * N)" using c(2) Npos by (simp add: mult_right_mono)
    then have "\<lceil>q * of_int N\<rceil> \<le> c * N" by (simp add: ceiling_le_iff)
    then show ?thesis using round_half_even_le_ceiling[of "q / u"] by (simp add: n_def m)
  qed
  have lower: "(c - 1) * N < n"
  proof -
    have "1 \<le> a - (c - 1) * b"
    proof -
      have "of_int ((c - 1) * b) < (of_int a :: rat)"
        using c(1) bpos by (simp add: q_def pos_less_divide_eq)
      then have "(c - 1) * b < a" by (simp only: of_int_less_iff)
      then show ?thesis by simp
    qed
    then have "(1::rat) \<le> of_int (a - (c - 1) * b)" by (simp only: of_int_1_le_iff)
    moreover have "q * of_int b = of_int a" using bpos by (simp add: q_def)
    ultimately have "(1::rat) \<le> (q - (of_int c - 1)) * of_int b"
      by (simp add: algebra_simps)
    then have "of_int N \<le> (q - (of_int c - 1)) * of_int b * (of_int N :: rat)"
      using Npos by (simp add: mult_le_cancel_right1)
    moreover have "(q - (of_int c - 1)) * of_int b < (q - (of_int c - 1)) * (2 * of_int N)"
      using b_small c(1) by (simp add: mult_strict_left_mono)
    then have "(q - (of_int c - 1)) * of_int b * of_int N
        < (q - (of_int c - 1)) * (2 * of_int N) * (of_int N :: rat)"
      using Npos by (simp only: mult_strict_right_mono of_int_0_less_iff)
    ultimately have "of_int N < (q - (of_int c - 1)) * (2 * of_int N) * (of_int N :: rat)"
      by (rule le_less_trans)
    then have "1 < (q - (of_int c - 1)) * (2 * of_int N)"
      using Npos by simp
    then have "of_int ((c - 1) * N) + 1 / 2 < q * of_int N"
      by (simp add: field_simps)
    then have "of_int ((c - 1) * N) < (of_int n :: rat)"
      using round_half_even_lower[of "q / u"] by (simp add: n_def m)
    then show ?thesis by (simp only: of_int_less_iff)
  qed
  define y :: rat where "y = of_int n * u"
  have y: "y = of_int n / of_int N" by (simp add: y_def uN)
  have y_hi: "y \<le> of_int c"
    using upper Npos by (simp add: y pos_divide_le_eq flip: of_int_mult)
  have y_lo: "of_int c - 1 < y"
  proof -
    have "(of_int (c - 1) :: rat) * of_int N < of_int n"
      using lower by (simp only: of_int_less_iff flip: of_int_mult)
    then show ?thesis using Npos by (simp add: y pos_less_divide_eq)
  qed
  have ceil: "\<lceil>y\<rceil> = c" using y_hi y_lo by (simp add: ceiling_unique)
  have c53: "c \<le> 2 ^ 53" using q53 unfolding c_def by (simp add: ceiling_le_iff)
  have "(of_int c :: rat) \<le> of_int (2 ^ 53)" using c53 by (simp only: of_int_le_iff)
  then have "y \<le> 2 ^ 53" using y_hi by simp
  then have small: "\<not> 2 ^ 1024 \<le> y" by simp
  have "int_truediv a b = Inr y"
    using a b small unfolding int_truediv_def 
    by (simp add: Let_def y_def n_def u_def e_def q_def)
  with ceil show ?thesis by (simp add: c_def q_def)
qed

lemma group_count_ceiling:
  assumes "0 < n" "n < 2 ^ 53" "0 < g" "g < 2 ^ 1075"
  shows "group_count n g = Inr \<lceil>of_int n / of_int g :: rat\<rceil>"
  using int_truediv_ceil[OF assms] by (auto simp: group_count_def math_ceil_def)

text \<open>
  C2, as amended. For a page count \<open>n\<close> with \<open>0 < n < 2^53\<close> and a group size \<open>g\<close> with
  \<open>0 < g < 2^1075\<close>, step 0 of \<^verbatim>\<open>run\<close> on a state whose page count is still unset stores
  \<open>n\<close> and the group count \<open>\<lceil>n / g\<rceil>\<close> in the state and saves exactly that state.
\<close>

theorem count_pages_total_groups:
  assumes "total_pages (state self) = 0"
    and "get_number_of_pages env (pdf_path self) = Inr n"
    and "max_page_num_each_node (opt self) = g"
    and "0 < n" "n < 2 ^ 53" "0 < g" "g < 2 ^ 1075"
  shows "count_pages env (self, w) =
    save_state env
      (self\<lparr>state := (state self)
         \<lparr>total_pages := n, total_groups := \<lceil>of_int n / of_int g :: rat\<rceil>\<rparr>\<rparr>, w)"
  using assms(1-3) group_count_ceiling[OF assms(4-7)]
  by (simp add: count_pages_def Let_def)

text \<open>The examples of the specification: 90, 91 and 1 pages in groups of 10.\<close>

theorem count_pages_total_groups_witness:
  "saved_states (trace (snd (snd (count_pages (reliable 90) (fresh 10, blank))))) =
     [default_state\<lparr>total_pages := 90, total_groups := 9\<rparr>] \<and>
   saved_states (trace (snd (snd (count_pages (reliable 91) (fresh 10, blank))))) =
     [default_state\<lparr>total_pages := 91, total_groups := 10\<rparr>] \<and>
   saved_states (trace (snd (snd (count_pages (reliable 1) (fresh 10, blank))))) =
     [default_state\<lparr>total_pages := 1, total_groups := 1\<rparr>]"
proof -
  have d: "total_pages (state (fresh 10)) = 0" "max_page_num_each_node (opt (fresh 10)) = 10"
    by (simp_all add: fresh_def default_state_def)
  have g: "\<And>n. get_number_of_pages (reliable n) (pdf_path (fresh 10)) = Inr n"
    by (simp add: reliable_def)
  have c: "\<lceil>90 / 10 :: rat\<rceil> = 9" "\<lceil>91 / 10 :: rat\<rceil> = 10" "\<lceil>1 / 10 :: rat\<rceil> = 1"
    by (simp_all add: ceiling_unique)
  have s: "\<And>n s. saved_states (trace (snd (snd (save_state (reliable n) (s, blank))))) = [state s]"
    by (simp add: save_state_def reliable_def blank_def)
  show ?thesis
    using count_pages_total_groups[OF d(1) g[of 90] d(2), of blank]
      count_pages_total_groups[OF d(1) g[of 91] d(2), of blank]
      count_pages_total_groups[OF d(1) g[of 1] d(2), of blank]
    by (simp add: s c) (simp add: fresh_def)
qed

text \<open>
  C2, as stated, fails beyond the integers that binary64 holds exactly: for a document of
  \<open>2^53 + 1\<close> pages and groups of one page, the quotient is rounded to \<open>2^53\<close>.
\<close>

theorem count_pages_total_groups_counterexample:
  "saved_states (trace (snd (snd (count_pages (reliable (2 ^ 53 + 1)) (fresh 1, blank))))) =
     [default_state\<lparr>total_pages := 2 ^ 53 + 1, total_groups := 2 ^ 53\<rparr>] \<and>
   \<lceil>(2 ^ 53 + 1) / 1 :: rat\<rceil> \<noteq> 2 ^ 53"
proof -
  have "group_count (2 ^ 53 + 1) 1 = Inr (2 ^ 53)"
    by code_simp
  then show ?thesis
    by (simp add: count_pages_def save_state_def reliable_def blank_def fresh_def
        default_state_def Let_def)
qed

section \<open>\<^verbatim>\<open>str\<close> is injective on the group indices\<close>

lemma digit_char_inj:
  assumes "a < 10" "b < 10" "digit_char a = digit_char b"
  shows "a = b"
proof -
  have "(of_char (digit_char a) :: nat) = of_char (digit_char b)" using assms(3) by simp
  then have "(48 + a) mod 256 = (48 + b) mod 256" by (simp add: digit_char_def)
  with assms(1,2) show ?thesis by simp
qed

lemma digits_not_Nil: "digits n \<noteq> []"
  by (subst digits.simps) simp

lemma digits_inj: "digits m = digits n \<Longrightarrow> m = n"
proof (induction m arbitrary: n rule: digits.induct)
  case (1 m)
  show ?case
  proof (cases "m < 10")
    case m: True
    then have dm: "digits m = [digit_char m]" by (subst digits.simps) simp
    show ?thesis
    proof (cases "n < 10")
      case True
      then have "digits n = [digit_char n]" by (subst digits.simps) simp
      with dm 1(2) m True show ?thesis by (auto dest: digit_char_inj)
    next
      case False
      then have "digits n = digits (n div 10) @ [digit_char (n mod 10)]" by (subst digits.simps) simp
      with dm 1(2) digits_not_Nil[of "n div 10"] show ?thesis by (cases "digits (n div 10)") auto
    qed
  next
    case m: False
    then have dm: "digits m = digits (m div 10) @ [digit_char (m mod 10)]" by (subst digits.simps) simp
    show ?thesis
    proof (cases "n < 10")
      case True
      then have "digits n = [digit_char n]" by (subst digits.simps) simp
      with dm 1(2) digits_not_Nil[of "m div 10"] show ?thesis by (cases "digits (m div 10)") auto
    next
      case False
      then have "digits n = digits (n div 10) @ [digit_char (n mod 10)]" by (subst digits.simps) simp
      with dm 1(2) have e: "digits (m div 10) = digits (n div 10)" "digit_char (m mod 10) = digit_char (n mod 10)"
        by simp_all
      from 1(1)[OF m e(1)] have "m div 10 = n div 10" .
      moreover have "m mod 10 = n mod 10" using e(2) by (auto intro: digit_char_inj)
      ultimately show ?thesis by (metis div_mult_mod_eq)
    qed
  qed
qed

lemma str_inj: "0 \<le> i \<Longrightarrow> 0 \<le> j \<Longrightarrow> str i = str j \<Longrightarrow> i = j"
  by (auto simp: str_def dest: digits_inj)

section \<open>Saving, calling and one iteration of the loop, case by case\<close>

lemma save_state_cases:
  obtains (written) x where
      "save_state env (self, w) =
        (Inr (), self, w\<lparr>disk := (disk w)(state_path self \<mapsto> Document (state self)),
           trace := trace w @ [Saved (state self)], ext := x\<rparr>)"
  | (open_failed) x where
      "save_state env (self, w) =
        (Inl OSError, self, w\<lparr>trace := trace w @ [Save_failed], ext := x\<rparr>)"
  | (dump_failed) x where
      "save_state env (self, w) =
        (Inl OSError, self, w\<lparr>disk := (disk w)(state_path self \<mapsto> Undecodable),
           trace := trace w @ [Save_failed], ext := x\<rparr>)"
proof (cases "storage env (ext w)")
  case (Pair out x)
  then show ?thesis using that by (cases out) (auto simp: save_state_def)
qed

lemma call_with_backoff_eq:
  "call_with_backoff c f (self, w) =
     (fst (f (ext w)), self,
      w\<lparr>trace := trace w @ [Call c (state self) (disk w (state_path self))],
        ext := snd (f (ext w))\<rparr>)"
  by (simp add: call_with_backoff_def split: prod.splits)

lemma extract_loop_Cons_cases:
  obtains
    (skip) "str i \<in> set (completed_groups (state self))"
      "extract_loop env (i # is) (self, w) = extract_loop env is (self, w)"
  | (call_failed) e x where "str i \<notin> set (completed_groups (state self))"
      "extract_loop env (i # is) (self, w) =
         (Inl e, self, w\<lparr>trace := trace w @ [continue_call self w i], ext := x\<rparr>)"
  | (save_failed) seg w2 where "str i \<notin> set (completed_groups (state self))"
      "extract_loop env (i # is) (self, w) = (Inl OSError, appended self i seg, w2)"
      "trace w2 = trace w @ [continue_call self w i, Save_failed]"
      "disk w2 = disk w \<or> disk w2 = (disk w)(state_path self \<mapsto> Undecodable)"
  | (continue) seg w2 where "str i \<notin> set (completed_groups (state self))"
      "extract_loop env (i # is) (self, w) = extract_loop env is (appended self i seg, w2)"
      "trace w2 = trace w @ [continue_call self w i, Saved (state (appended self i seg))]"
      "disk w2 = (disk w)(state_path self \<mapsto> Document (state (appended self i seg)))"
proof (cases "str i \<in> set (completed_groups (state self))")
  case True
  then show ?thesis using skip by simp
next
  case False
  let ?f = "generate_toc_continue env (pdf_path self) (str i) (opt self)"
  let ?w1 = "w\<lparr>trace := trace w @ [continue_call self w i], ext := snd (?f (ext w))\<rparr>"
  show ?thesis
  proof (cases "fst (?f (ext w))")
    case (Inl e)
    with False show ?thesis using call_failed by (simp add: call_with_backoff_eq)
  next
    case (Inr seg)
    show ?thesis
    proof (cases rule: save_state_cases[of env "appended self i seg" ?w1])
      case (written x)
      with False Inr show ?thesis
        using continue[of seg] by (simp add: call_with_backoff_eq Let_def)
    next
      case (open_failed x)
      with False Inr show ?thesis
        using save_failed[of seg] by (simp add: call_with_backoff_eq Let_def)
    next
      case (dump_failed x)
      with False Inr show ?thesis
        using save_failed[of seg] by (simp add: call_with_backoff_eq Let_def)
    qed
  qed
qed

lemma extraction_calls_append [simp]:
  "extraction_calls (es @ fs) = extraction_calls es @ extraction_calls fs"
  by (induction es rule: extraction_calls.induct) simp_all

lemma extract_loop_calls:
  assumes "extract_loop env is (self, w) = (r, self', w')"
    and "distinct is" and "list_all (\<lambda>i. 0 \<le> i) is"
  shows "\<exists>es. trace w' = trace w @ es \<and>
    prefix (extraction_calls es)
      (map str (filter (\<lambda>i. str i \<notin> set (completed_groups (state self))) is)) \<and>
    (r = Inr () \<longrightarrow> extraction_calls es =
      map str (filter (\<lambda>i. str i \<notin> set (completed_groups (state self))) is))"
  using assms
proof (induction "is" arbitrary: self w)
  case Nil
  then show ?case by simp
next
  case (Cons i "is")
  have same: "filter (\<lambda>j. str j \<notin> set (completed_groups (state (appended self i seg)))) is =
      filter (\<lambda>j. str j \<notin> set (completed_groups (state self))) is" for seg
    using Cons.prems(2,3) by (auto intro!: filter_cong simp: list_all_iff dest: str_inj)
  show ?case
  proof (cases rule: extract_loop_Cons_cases[of i self env "is" w])
    case skip
    with Cons show ?thesis by simp
  next
    case (call_failed e x)
    with Cons.prems(1) show ?thesis by auto
  next
    case (save_failed seg w2)
    with Cons.prems(1) show ?thesis by auto
  next
    case (continue seg w2)
    with Cons.prems have "extract_loop env is (appended self i seg, w2) = (r, self', w')"
      "distinct is" "list_all (\<lambda>i. 0 \<le> i) is" by simp_all
    from Cons.IH[OF this] obtain es where es: "trace w' = trace w2 @ es"
      "prefix (extraction_calls es) (map str (filter (\<lambda>j. str j \<notin> set (completed_groups (state self))) is))"
      "r = Inr () \<longrightarrow> extraction_calls es = map str (filter (\<lambda>j. str j \<notin> set (completed_groups (state self))) is)"
      unfolding same by blast
    have "trace w' = trace w @ ([continue_call self w i, Saved (state (appended self i seg))] @ es)"
      using es(1) continue(3) by simp
    moreover have "extraction_calls ([continue_call self w i, Saved (state (appended self i seg))] @ es) = str i # extraction_calls es"
      by simp
    ultimately show ?thesis using es(2,3) continue(1) by (intro exI[of _ "[continue_call self w i, Saved (state (appended self i seg))] @ es"]) simp
  qed
qed

section \<open>Calls are issued on a saved state\<close>

lemma save_state_clean:
  assumes "save_state env (self, w) = (r, self', w')"
  shows "\<exists>es. trace w' = trace w @ es \<and> list_all clean es \<and> self' = self \<and>
    (r = Inr () \<longrightarrow> synced self' w')"
  using assms by (auto simp: save_state_def synced_def split: prod.splits write_outcome.splits)

lemma call_clean:
  assumes "call_with_backoff c f (self, w) = (r, self', w')" "synced self w"
  shows "trace w' = trace w @ [Call c (state self) (disk w (state_path self))] \<and> self' = self \<and> disk w' = disk w"
  using assms by (auto simp: call_with_backoff_def split: prod.splits)

lemma count_pages_clean:
  assumes "count_pages env (self, w) = (r, self', w')"
  shows "\<exists>es. trace w' = trace w @ es \<and> list_all clean es \<and> state_path self' = state_path self \<and>
    (r = Inr () \<and> (synced self w \<or> total_pages (state self) = 0) \<longrightarrow> synced self' w')"
proof (cases "total_pages (state self) = 0")
  case False
  with assms show ?thesis by (simp add: count_pages_def)
next
  case True
  show ?thesis
  proof (cases "get_number_of_pages env (pdf_path self)")
    case (Inl e)
    with True assms show ?thesis by (auto simp: count_pages_def)
  next
    case (Inr n)
    show ?thesis
    proof (cases "group_count n (max_page_num_each_node (opt self))")
      case (Inl e)
      with True Inr assms show ?thesis by (auto simp: count_pages_def Let_def)
    next
      case g: (Inr g)
      with True Inr assms have "save_state env (self\<lparr>state := (state self)\<lparr>total_pages := n, total_groups := g\<rparr>\<rparr>, w) = (r, self', w')"
        by (simp add: count_pages_def Let_def)
      from save_state_clean[OF this] show ?thesis by auto
    qed
  qed
qed

lemma initial_toc_clean:
  assumes "initial_toc env (self, w) = (r, self', w')" "synced self w"
  shows "\<exists>es. trace w' = trace w @ es \<and> list_all clean es \<and> state_path self' = state_path self \<and>
    (r = Inr () \<longrightarrow> synced self' w')"
proof (cases "step (state self) = ''INITIALIZE''")
  case False
  with assms show ?thesis by (simp add: initial_toc_def)
next
  case True
  obtain r1 self1 w1 where c: "call_with_backoff (Generate_toc_init (pdf_path self))
               (generate_toc_init env (pdf_path self) (opt self)) (self, w) = (r1, self1, w1)"
    by (metis prod_cases3)
  note cc = call_clean[OF c assms(2)]
  show ?thesis
  proof (cases r1)
    case (Inl e)
    with True assms c cc show ?thesis by (auto simp: initial_toc_def synced_def)
  next
    case (Inr u)
    with True assms c have "save_state env (self1\<lparr>state := (state self1)\<lparr>step := ''EXTRACT_NODES''\<rparr>\<rparr>, w1) = (r, self', w')"
      by (simp add: initial_toc_def)
    from save_state_clean[OF this] cc assms(2) show ?thesis by (auto simp: synced_def)
  qed
qed

lemma extract_loop_clean:
  assumes "extract_loop env is (self, w) = (r, self', w')" "synced self w"
  shows "\<exists>es. trace w' = trace w @ es \<and> list_all clean es \<and> state_path self' = state_path self \<and>
    (r = Inr () \<longrightarrow> synced self' w')"
  using assms
proof (induction "is" arbitrary: self w)
  case Nil
  then show ?case by simp
next
  case (Cons i "is")
  show ?case
  proof (cases "str i \<in> set (completed_groups (state self))")
    case True
    with Cons.prems have "extract_loop env is (self, w) = (r, self', w')" by simp
    from Cons.IH[OF this Cons.prems(2)] show ?thesis .
  next
    case False
    obtain r1 self1 w1 where c: "call_with_backoff (Generate_toc_continue (pdf_path self) (str i))
               (generate_toc_continue env (pdf_path self) (str i) (opt self)) (self, w) = (r1, self1, w1)"
      by (metis prod_cases3)
    note cc = call_clean[OF c Cons.prems(2)]
    show ?thesis
    proof (cases r1)
      case (Inl e)
      with False Cons.prems c cc show ?thesis by (auto simp: synced_def)
    next
      case (Inr seg)
      define self3 where "self3 = self1\<lparr>state := (state self1)\<lparr>toc_segments := toc_segments (state self1) @ [seg], 
           completed_groups := completed_groups (state self1) @ [str i]\<rparr>\<rparr>"
      obtain r2 self4 w2 where s: "save_state env (self3, w1) = (r2, self4, w2)"
        by (metis prod_cases3)
      note ss = save_state_clean[OF s]
      show ?thesis
      proof (cases r2)
        case (Inl e)
        with False Cons.prems(1) c Inr s ss cc Cons.prems(2) show ?thesis
          by (auto simp: Let_def self3_def synced_def)
      next
        case r2: (Inr u)
        with False Cons.prems(1) c Inr s have "extract_loop env is (self4, w2) = (r, self', w')"
          by (simp add: Let_def self3_def)
        from Cons.IH[OF this] ss r2 cc Cons.prems(2) show ?thesis
          by (auto simp: self3_def synced_def)
      qed
    qed
  qed
qed

lemma extract_nodes_clean:
  assumes "extract_nodes env (self, w) = (r, self', w')" "synced self w"
  shows "\<exists>es. trace w' = trace w @ es \<and> list_all clean es \<and> state_path self' = state_path self \<and>
    (r = Inr () \<longrightarrow> synced self' w')"
proof (cases "step (state self) = ''EXTRACT_NODES''")
  case False
  with assms show ?thesis by (simp add: extract_nodes_def)
next
  case True
  obtain r1 self1 w1 where l: "extract_loop env [1..total_groups (state self)] (self, w) = (r1, self1, w1)"
    by (metis prod_cases3)
  from extract_loop_clean[OF l assms(2)] obtain es1 where es1:
    "trace w1 = trace w @ es1" "list_all clean es1" "state_path self1 = state_path self"
    by blast
  show ?thesis
  proof (cases r1)
    case (Inl e)
    with True assms(1) l es1 show ?thesis by (auto simp: extract_nodes_def Let_def)
  next
    case (Inr u)
    with True assms(1) l
    have "save_state env (self1\<lparr>state := (state self1)\<lparr>step := ''VERIFY''\<rparr>\<rparr>, w1) = (r, self', w')"
      by (simp add: extract_nodes_def Let_def)
    from save_state_clean[OF this] es1 show ?thesis by auto
  qed
qed

lemma verify_clean:
  assumes "verify env (self, w) = (r, self', w')" "synced self w"
  shows "\<exists>es. trace w' = trace w @ es \<and> list_all clean es"
  using assms
  by (auto simp: verify_def call_with_backoff_eq synced_def split: if_splits sum.splits)

lemma run_clean:
  assumes "run env (self, w) = (r, self', w')"
    and "synced self w \<or> total_pages (state self) = 0"
  shows "\<exists>es. trace w' = trace w @ es \<and> list_all clean es"
proof -
  obtain r0 self0 w0 where s0: "count_pages env (self, w) = (r0, self0, w0)"
    by (metis prod_cases3)
  from count_pages_clean[OF s0] assms(2) obtain es0 where es0:
    "trace w0 = trace w @ es0" "list_all clean es0" "r0 = Inr () \<longrightarrow> synced self0 w0"
    by blast
  show ?thesis
  proof (cases r0)
    case (Inl e)
    with assms(1) s0 es0 show ?thesis by (auto simp: run_def)
  next
    case r0: (Inr u0)
    obtain r1 self1 w1 where s1: "initial_toc env (self0, w0) = (r1, self1, w1)"
      by (metis prod_cases3)
    from r0 es0 have y0: "synced self0 w0" by simp
    from initial_toc_clean[OF s1 y0] obtain es1 where es1:
      "trace w1 = trace w0 @ es1" "list_all clean es1" "r1 = Inr () \<longrightarrow> synced self1 w1"
      by blast
    show ?thesis
    proof (cases r1)
      case (Inl e)
      with assms(1) s0 r0 s1 es0 es1 show ?thesis by (auto simp: run_def)
    next
      case r1: (Inr u1)
      obtain r2 self2 w2 where s2: "extract_nodes env (self1, w1) = (r2, self2, w2)"
        by (metis prod_cases3)
      from r1 es1 have y1: "synced self1 w1" by simp
      from extract_nodes_clean[OF s2 y1] obtain es2 where es2:
        "trace w2 = trace w1 @ es2" "list_all clean es2" "r2 = Inr () \<longrightarrow> synced self2 w2"
        by blast
      show ?thesis
      proof (cases r2)
        case (Inl e)
        with assms(1) s0 r0 s1 r1 s2 es0 es1 es2 show ?thesis by (auto simp: run_def)
      next
        case r2: (Inr u2)
        with assms(1) s0 r0 s1 r1 s2 have v: "verify env (self2, w2) = (r, self', w')"
          by (simp add: run_def)
        from r2 es2 have y2: "synced self2 w2" by simp
        from verify_clean[OF v y2] es0 es1 es2 show ?thesis by auto
      qed
    qed
  qed
qed

lemma indexer_init_synced:
  assumes "indexer_init pdf options work_dir w = Inr self"
  shows "synced self w \<or> total_pages (state self) = 0"
  using assms
  by (auto simp: indexer_init_def load_state_def synced_def default_state_def Let_def
      split: option.splits checkpoint.splits)

text \<open>
  C4. In every invocation, whatever the checkpoint file holds at the start and however
  the collaborators and the file system behave, each call through the retry wrapper is
  issued at a moment when the checkpoint file holds exactly the in-memory state: the
  totals, each completed group with its segment and each phase advance have been saved
  before the next call.
\<close>

theorem calls_find_progress_saved:
  "\<exists>es. trace (snd (invoke env pdf options work_dir w)) = trace w @ es \<and> list_all clean es"
proof (cases "indexer_init pdf options work_dir w")
  case (Inl e)
  then show ?thesis by (simp add: invoke_def)
next
  case (Inr self)
  obtain r self' w' where r: "run env (self, w) = (r, self', w')"
    by (metis prod_cases3)
  from run_clean[OF r indexer_init_synced[OF Inr]] Inr r show ?thesis
    by (simp add: invoke_def)
qed

lemma group_count_23: "group_count 23 10 = Inr 3"
  by code_simp

lemma upto_1_3: "[1..3] = [1, 2, 3]"
  by (simp add: upto.simps)

lemma str_123: "str 1 = ''1''" "str 2 = ''2''" "str 3 = ''3''"
  by code_simp+

lemma example_state_path:
  "path_join ''./tmp'' (basename ''/a/doc.pdf'' @ ''_state.json'') = ''./tmp/doc.pdf_state.json''"
  by (simp add: path_join_def basename_def)

lemmas full_run_simps =
  full_run_def invoke_def indexer_init_def load_state_def run_def count_pages_def
  initial_toc_def extract_nodes_def verify_def save_state_def call_with_backoff_def
  reliable_def blank_def default_state_def group_count_23 upto_1_3 str_123
  example_state_path Let_def

lemma full_run_calls:
  "extraction_calls (trace (snd full_run)) = [''1'', ''2'', ''3'']"
  "verification_calls (trace (snd full_run)) = [[''segment 1'', ''segment 2'', ''segment 3'']]"
  by (simp_all add: full_run_simps)

theorem calls_find_progress_saved_witness:
  "extraction_calls (trace (snd full_run)) = [''1'', ''2'', ''3''] \<and>
   list_all clean (trace (snd full_run))"
  using calls_find_progress_saved[of "reliable 23" "''/a/doc.pdf''"
      "\<lparr>max_page_num_each_node = 10\<rparr>" "''./tmp''" blank] full_run_calls(1)
  by (auto simp: blank_def full_run_def)

section \<open>Which extraction calls a run issues\<close>

lemma extract_loop_frame:
  assumes "extract_loop env is (self, w) = (r, self', w')"
  shows "(\<exists>es. trace w' = trace w @ es) \<and> same_settings self self'"
  using assms
proof (induction "is" arbitrary: self w)
  case Nil
  then show ?case by (simp add: same_settings_def)
next
  case (Cons i "is")
  show ?case
  proof (cases rule: extract_loop_Cons_cases[of i self env "is" w])
    case skip
    with Cons show ?thesis by simp
  next
    case (call_failed e x)
    with Cons.prems(1) show ?thesis by (auto simp: same_settings_def)
  next
    case (save_failed seg w2)
    with Cons.prems(1) show ?thesis by (auto simp: same_settings_def)
  next
    case (continue seg w2)
    with Cons.prems(1) have l: "extract_loop env is (appended self i seg, w2) = (r, self', w')"
      by simp
    from Cons.IH[OF l] continue(3) show ?thesis by (auto simp: same_settings_def)
  qed
qed

lemma extract_loop_first_call:
  assumes "extract_loop env is (self, w) = (r, self', w')"
    and "filter (\<lambda>i. str i \<notin> set (completed_groups (state self))) is \<noteq> []"
  shows "\<exists>es. trace w' = trace w @ es \<and> extraction_calls es \<noteq> []"
  using assms
proof (induction "is" arbitrary: self w)
  case Nil
  then show ?case by simp
next
  case (Cons i "is")
  show ?case
  proof (cases rule: extract_loop_Cons_cases[of i self env "is" w])
    case skip
    with Cons show ?thesis by simp
  next
    case (call_failed e x)
    with Cons.prems(1) show ?thesis by auto
  next
    case (save_failed seg w2)
    with Cons.prems(1) show ?thesis by auto
  next
    case (continue seg w2)
    with Cons.prems(1) have l: "extract_loop env is (appended self i seg, w2) = (r, self', w')"
      by simp
    from extract_loop_frame[OF l] obtain es where "trace w' = trace w2 @ es" by blast
    with continue(3) have "trace w' = trace w @ ([continue_call self w i, Saved (state (appended self i seg))] @ es)"
      by simp
    moreover have "extraction_calls ([continue_call self w i, Saved (state (appended self i seg))] @ es) \<noteq> []"
      by simp
    ultimately show ?thesis by blast
  qed
qed

lemma extract_nodes_calls:
  assumes "step (state self) = ''EXTRACT_NODES''"
    and "extract_nodes env (self, w) = (r, self', w')"
  shows "\<exists>es. trace w' = trace w @ es \<and>
    prefix (extraction_calls es) (pending (state self)) \<and>
    (pending (state self) \<noteq> [] \<longrightarrow> extraction_calls es \<noteq> []) \<and>
    (r = Inr () \<longrightarrow> extraction_calls es = pending (state self) \<and> step (state self') = ''VERIFY'')"
proof -
  let ?is = "[1..total_groups (state self)]"
  obtain r1 self1 w1 where l: "extract_loop env ?is (self, w) = (r1, self1, w1)"
    by (metis prod_cases3)
  have "distinct ?is" "list_all (\<lambda>i. 0 \<le> i) ?is" by (simp_all add: list_all_iff)
  from extract_loop_calls[OF l this] obtain es1 where es1: "trace w1 = trace w @ es1"
    "prefix (extraction_calls es1) (pending (state self))"
    "r1 = Inr () \<longrightarrow> extraction_calls es1 = pending (state self)"
    unfolding pending_def by blast
  have ne: "pending (state self) \<noteq> [] \<longrightarrow> extraction_calls es1 \<noteq> []"
    using extract_loop_first_call[OF l] es1(1) by (auto simp: pending_def)
  show ?thesis
  proof (cases r1)
    case (Inl e)
    with assms l es1 ne show ?thesis by (auto simp: extract_nodes_def Let_def)
  next
    case (Inr u)
    let ?self2 = "self1\<lparr>state := (state self1)\<lparr>step := ''VERIFY''\<rparr>\<rparr>"
    from Inr assms l have s: "save_state env (?self2, w1) = (r, self', w')"
      by (simp add: extract_nodes_def Let_def)
    show ?thesis
    proof (cases rule: save_state_cases[of env ?self2 w1])
      case (written x)
      with s have "trace w' = trace w @ (es1 @ [Saved (state ?self2)])" "r = Inr ()"
        "step (state self') = ''VERIFY''"
        using es1(1) by auto
      moreover have "extraction_calls (es1 @ [Saved (state ?self2)]) = extraction_calls es1"
        by simp
      ultimately show ?thesis using es1(2,3) ne Inr by (intro exI[of _ "es1 @ [Saved (state ?self2)]"]) simp
    next
      case (open_failed x)
      with s have "trace w' = trace w @ (es1 @ [Save_failed])" "r \<noteq> Inr ()"
        using es1(1) by auto
      moreover have "extraction_calls (es1 @ [Save_failed]) = extraction_calls es1"
        by simp
      ultimately show ?thesis using es1(2,3) ne Inr by (intro exI[of _ "es1 @ [Save_failed]"]) simp
    next
      case (dump_failed x)
      with s have "trace w' = trace w @ (es1 @ [Save_failed])" "r \<noteq> Inr ()"
        using es1(1) by auto
      moreover have "extraction_calls (es1 @ [Save_failed]) = extraction_calls es1"
        by simp
      ultimately show ?thesis using es1(2,3) ne Inr by (intro exI[of _ "es1 @ [Save_failed]"]) simp
    qed
  qed
qed

lemma verify_calls:
  assumes "verify env (self, w) = (r, self', w')"
  shows "\<exists>es. trace w' = trace w @ es \<and> extraction_calls es = []"
  using assms
  by (auto simp: verify_def call_with_backoff_eq split: if_splits sum.splits)

lemma pending_example:
  "completed_groups st = [''1'', ''2''] \<Longrightarrow> total_groups st = 3 \<Longrightarrow> pending st = [''3'']"
  by (simp add: pending_def upto_1_3 str_123)

text \<open>
  C3. A run on a state in the extraction phase issues extraction calls only for the
  indices of \<open>1..total_groups\<close> whose string form is not in \<open>completed_groups\<close>, in
  ascending order and each at most once, and for all of them when the run returns. With
  groups 1 and 2 of 3 completed, exactly one extraction call is issued, for group 3.
\<close>

theorem resume_skips_completed_groups:
  assumes "step (state self) = ''EXTRACT_NODES''"
    and "total_pages (state self) \<noteq> 0"
    and "run env (self, w) = (r, self', w')"
  shows "\<exists>es. trace w' = trace w @ es \<and>
    prefix (extraction_calls es) (pending (state self)) \<and>
    set (extraction_calls es) \<inter> set (completed_groups (state self)) = {} \<and>
    (isl r \<or> extraction_calls es = pending (state self)) \<and>
    (completed_groups (state self) = [''1'', ''2''] \<and> total_groups (state self) = 3 \<longrightarrow>
       extraction_calls es = [''3''])"
proof -
  obtain r2 self2 w2 where e: "extract_nodes env (self, w) = (r2, self2, w2)"
    by (metis prod_cases3)
  from extract_nodes_calls[OF assms(1) e] obtain es2 where es2: "trace w2 = trace w @ es2"
    "prefix (extraction_calls es2) (pending (state self))"
    "pending (state self) \<noteq> [] \<longrightarrow> extraction_calls es2 \<noteq> []"
    "r2 = Inr () \<longrightarrow> extraction_calls es2 = pending (state self)"
    by blast
  have "\<exists>es. trace w' = trace w @ es \<and> extraction_calls es = extraction_calls es2 \<and>
     (isl r \<or> r2 = Inr ())"
  proof (cases r2)
    case (Inl err)
    with assms e es2(1) show ?thesis
      by (auto simp: run_def count_pages_def initial_toc_def)
  next
    case (Inr u)
    with assms e have "verify env (self2, w2) = (r, self', w')"
      by (simp add: run_def count_pages_def initial_toc_def)
    from verify_calls[OF this] es2(1) Inr show ?thesis by auto
  qed
  then obtain es where es: "trace w' = trace w @ es" "extraction_calls es = extraction_calls es2"
    "isl r \<or> r2 = Inr ()" by blast
  have disj: "set (extraction_calls es) \<inter> set (completed_groups (state self)) = {}"
  proof -
    have "set (extraction_calls es) \<subseteq> set (pending (state self))"
      using es2(2) es(2) by (simp add: set_mono_prefix)
    then show ?thesis by (auto simp: pending_def)
  qed
  have ex: "extraction_calls es = [''3'']"
    if "completed_groups (state self) = [''1'', ''2'']" "total_groups (state self) = 3"
  proof -
    have p: "pending (state self) = [''3'']" using that by (rule pending_example)
    with es2(2,3) es(2) show ?thesis by (cases "extraction_calls es2") auto
  qed
  have all: "isl r \<or> extraction_calls es = pending (state self)"
    using es(2,3) es2(4) by auto
  have pre: "prefix (extraction_calls es) (pending (state self))"
    using es(2) es2(2) by simp
  show ?thesis
    by (rule exI[of _ es]) (use es(1) pre disj all ex in simp)
qed

theorem resume_skips_completed_groups_witness:
  "step (state resumed) = ''EXTRACT_NODES'' \<and> total_pages (state resumed) \<noteq> 0 \<and>
   completed_groups (state resumed) = [''1'', ''2''] \<and> total_groups (state resumed) = 3 \<and>
   extraction_calls (trace (snd (snd (run (reliable 23) (resumed, blank))))) = [''3'']"
proof -
  have h: "step (state resumed) = ''EXTRACT_NODES''" "total_pages (state resumed) \<noteq> 0"
    "completed_groups (state resumed) = [''1'', ''2'']" "total_groups (state resumed) = 3"
    by (simp_all add: resumed_def)
  obtain r self' w' where run: "run (reliable 23) (resumed, blank) = (r, self', w')"
    by (metis prod_cases3)
  from resume_skips_completed_groups[OF h(1,2) run] h(3,4)
  obtain es where "trace w' = trace blank @ es" "extraction_calls es = [''3'']"
    by blast
  then show ?thesis using run h by (simp add: blank_def)
qed

section \<open>Loading and saving the checkpoint\<close>

text \<open>
  C7. Loading returns the persisted state when the checkpoint file holds one, and the
  default state (step \<^verbatim>\<open>INITIALIZE\<close>, no completed groups, no segments, zero totals) when
  there is no file. When the file exists but cannot be decoded, loading raises, and so
  does the construction of the indexer: the invocation ends with that error and leaves
  the disk, the trace and the collaborators untouched, so no fresh state is written over
  the corrupt file.
\<close>

theorem load_state_outcomes:
  "(disk w p = Some (Document st) \<longrightarrow> load_state p w = Inr st) \<and>
   (disk w p = None \<longrightarrow>
      load_state p w =
        Inr \<lparr>step = ''INITIALIZE'', completed_groups = [], toc_segments = [],
             total_groups = 0, total_pages = 0\<rparr>) \<and>
   (disk w p = Some Undecodable \<longrightarrow>
      load_state p w = Inl JSONDecodeError \<and>
      (p = path_join work_dir (basename pdf @ ''_state.json'') \<longrightarrow>
         invoke env pdf options work_dir w = (Inl JSONDecodeError, w)))"
  by (auto simp: load_state_def default_state_def invoke_def indexer_init_def Let_def)

theorem load_state_outcomes_witness:
  "load_state ''./tmp/doc.pdf_state.json'' (snd full_run) =
     Inr \<lparr>step = ''VERIFY'', completed_groups = [''1'', ''2'', ''3''],
          toc_segments = [''segment 1'', ''segment 2'', ''segment 3''],
          total_groups = 3, total_pages = 23\<rparr> \<and>
   load_state ''./tmp/doc.pdf_state.json'' blank = Inr default_state \<and>
   invoke (reliable 23) ''/a/doc.pdf'' \<lparr>max_page_num_each_node = 10\<rparr> ''./tmp'' corrupt =
     (Inl JSONDecodeError, corrupt)"
proof -
  have d: "disk (snd full_run) ''./tmp/doc.pdf_state.json'' =
      Some (Document \<lparr>step = ''VERIFY'', completed_groups = [''1'', ''2'', ''3''],
          toc_segments = [''segment 1'', ''segment 2'', ''segment 3''],
          total_groups = 3, total_pages = 23\<rparr>)"
    by (simp add: full_run_simps)
  have b: "disk blank ''./tmp/doc.pdf_state.json'' = None"
    by (simp add: blank_def)
  have c: "disk corrupt ''./tmp/doc.pdf_state.json'' = Some Undecodable"
    by (simp add: corrupt_def blank_def)
  let ?p = "''./tmp/doc.pdf_state.json''"
  let ?st = "\<lparr>step = ''VERIFY'', completed_groups = [''1'', ''2'', ''3''],
          toc_segments = [''segment 1'', ''segment 2'', ''segment 3''],
          total_groups = 3, total_pages = 23 :: int\<rparr>"
  let ?o = "\<lparr>max_page_num_each_node = 10\<rparr>"
  have 1: "load_state ?p (snd full_run) = Inr ?st"
    using load_state_outcomes[of "snd full_run" ?p ?st "''./tmp''" "''/a/doc.pdf''" "reliable 23" ?o] d
    by blast
  have 2: "load_state ?p blank = Inr default_state"
    using load_state_outcomes[of blank ?p ?st "''./tmp''" "''/a/doc.pdf''" "reliable 23" ?o] b
    by (simp add: default_state_def)
  have 3: "invoke (reliable 23) ''/a/doc.pdf'' ?o ''./tmp'' corrupt = (Inl JSONDecodeError, corrupt)"
    using load_state_outcomes[of corrupt ?p ?st "''./tmp''" "''/a/doc.pdf''" "reliable 23" ?o] c
    by (simp add: example_state_path)
  from 1 2 3 show ?thesis by blast
qed

text \<open>
  C5, as amended. A save touches no file but the checkpoint of the indexer. When it
  succeeds, the file holds the whole in-memory state. When it fails, it raises and the
  file is either untouched (the failure was at opening it) or undecodable (the failure
  came after the file was truncated): it never holds a state other than the previous
  one, and a later load of a truncated file raises instead of returning a state.
\<close>

theorem save_state_outcomes:
  assumes "save_state env (self, w) = (r, self', w')"
  shows "(\<forall>p. p \<noteq> state_path self \<longrightarrow> disk w' p = disk w p) \<and>
    (r = Inr () \<longrightarrow> disk w' (state_path self) = Some (Document (state self))) \<and>
    (r \<noteq> Inr () \<longrightarrow> r = Inl OSError \<and>
       (disk w' (state_path self) = disk w (state_path self) \<or>
        disk w' (state_path self) = Some Undecodable)) \<and>
    (fst (storage env (ext w)) = Open_failed \<longrightarrow> r = Inl OSError \<and> disk w' = disk w) \<and>
    (fst (storage env (ext w)) = Dump_failed \<longrightarrow>
       r = Inl OSError \<and> load_state (state_path self) w' = Inl JSONDecodeError)"
  using assms
  by (auto simp: save_state_def load_state_def split: prod.splits write_outcome.splits)


theorem save_state_outcomes_witness:
  "disk (snd (snd (save_state (reliable 23) (resumed, blank)))) (state_path resumed) =
     Some (Document (state resumed)) \<and>
   load_state (state_path resumed) (snd (snd (save_state (truncating 23) (resumed, blank)))) =
     Inl JSONDecodeError"
proof -
  let ?s = "save_state (reliable 23) (resumed, blank)"
  let ?t = "save_state (truncating 23) (resumed, blank)"
  have s: "?s = (fst ?s, fst (snd ?s), snd (snd ?s))"
    and t: "?t = (fst ?t, fst (snd ?t), snd (snd ?t))"
    by simp_all
  have r: "fst ?s = Inr ()"
    by (simp add: save_state_def reliable_def)
  have d: "fst (storage (truncating 23) (ext blank)) = Dump_failed"
    by (simp add: truncating_def)
  have 1: "disk (snd (snd ?s)) (state_path resumed) = Some (Document (state resumed))"
    using save_state_outcomes[OF s] r by blast
  have 2: "load_state (state_path resumed) (snd (snd ?t)) = Inl JSONDecodeError"
    using save_state_outcomes[OF t] d by blast
  from 1 2 show ?thesis ..
qed

text \<open>
  C5, as stated, fails: a checkpoint that holds the state of a resumed indexer is
  decodable before the save and undecodable after a save that fails while dumping.
\<close>

theorem save_state_counterexample:
  "load_state (state_path resumed) checkpointed = Inr (state resumed) \<and>
   fst (save_state (truncating 23) (resumed, checkpointed)) = Inl OSError \<and>
   load_state (state_path resumed) (snd (snd (save_state (truncating 23) (resumed, checkpointed)))) =
     Inl JSONDecodeError"
  by (simp add: load_state_def save_state_def truncating_def checkpointed_def blank_def)

section \<open>The steps of a run, case by case\<close>

lemma count_pages_cases:
  obtains
    (skip) "total_pages (state self) \<noteq> 0" "count_pages env (self, w) = (Inr (), self, w)"
  | (no_count) e where "total_pages (state self) = 0"
      "get_number_of_pages env (pdf_path self) = Inl e"
      "count_pages env (self, w) = (Inl e, self, w)"
  | (no_groups) n e where "total_pages (state self) = 0"
      "get_number_of_pages env (pdf_path self) = Inr n"
      "group_count n (max_page_num_each_node (opt self)) = Inl e"
      "count_pages env (self, w) = (Inl e, self\<lparr>state := (state self)\<lparr>total_pages := n\<rparr>\<rparr>, w)"
  | (save) n g where "total_pages (state self) = 0"
      "get_number_of_pages env (pdf_path self) = Inr n"
      "group_count n (max_page_num_each_node (opt self)) = Inr g"
      "count_pages env (self, w) =
         save_state env (self\<lparr>state := (state self)\<lparr>total_pages := n, total_groups := g\<rparr>\<rparr>, w)"
proof (cases "total_pages (state self) = 0")
  case False
  then show ?thesis using skip by (simp add: count_pages_def)
next
  case True
  show ?thesis
  proof (cases "get_number_of_pages env (pdf_path self)")
    case (Inl e)
    with True show ?thesis using no_count by (simp add: count_pages_def)
  next
    case (Inr n)
    show ?thesis
    proof (cases "group_count n (max_page_num_each_node (opt self))")
      case (Inl e)
      with True Inr show ?thesis using no_groups by (simp add: count_pages_def Let_def)
    next
      case g: (Inr g)
      with True Inr show ?thesis using save by (simp add: count_pages_def Let_def)
    qed
  qed
qed

lemma initial_toc_cases:
  obtains
    (skip) "step (state self) \<noteq> ''INITIALIZE''" "initial_toc env (self, w) = (Inr (), self, w)"
  | (call_failed) e x where "step (state self) = ''INITIALIZE''"
      "initial_toc env (self, w) =
         (Inl e, self, w\<lparr>trace := trace w @ [init_call self w], ext := x\<rparr>)"
  | (save) x where "step (state self) = ''INITIALIZE''"
      "initial_toc env (self, w) =
         save_state env (self\<lparr>state := (state self)\<lparr>step := ''EXTRACT_NODES''\<rparr>\<rparr>,
           w\<lparr>trace := trace w @ [init_call self w], ext := x\<rparr>)"
proof (cases "step (state self) = ''INITIALIZE''")
  case False
  then show ?thesis using skip by (simp add: initial_toc_def)
next
  case True
  show ?thesis
  proof (cases "fst (generate_toc_init env (pdf_path self) (opt self) (ext w))")
    case (Inl e)
    with True show ?thesis using call_failed by (simp add: initial_toc_def call_with_backoff_eq)
  next
    case (Inr u)
    with True show ?thesis using save by (simp add: initial_toc_def call_with_backoff_eq)
  qed
qed

lemma extract_nodes_cases:
  obtains
    (skip) "step (state self) \<noteq> ''EXTRACT_NODES''"
      "extract_nodes env (self, w) = (Inr (), self, w)"
  | (loop_failed) e self1 w1 where "step (state self) = ''EXTRACT_NODES''"
      "extract_loop env [1..total_groups (state self)] (self, w) = (Inl e, self1, w1)"
      "extract_nodes env (self, w) = (Inl e, self1, w1)"
  | (save) self1 w1 where "step (state self) = ''EXTRACT_NODES''"
      "extract_loop env [1..total_groups (state self)] (self, w) = (Inr (), self1, w1)"
      "extract_nodes env (self, w) =
         save_state env (self1\<lparr>state := (state self1)\<lparr>step := ''VERIFY''\<rparr>\<rparr>, w1)"
proof (cases "step (state self) = ''EXTRACT_NODES''")
  case False
  then show ?thesis using skip by (simp add: extract_nodes_def)
next
  case True
  obtain r1 self1 w1 where l:
    "extract_loop env [1..total_groups (state self)] (self, w) = (r1, self1, w1)"
    by (metis prod_cases3)
  show ?thesis
  proof (cases r1)
    case (Inl e)
    with True l show ?thesis using loop_failed by (simp add: extract_nodes_def Let_def)
  next
    case (Inr u)
    with True l show ?thesis using save by (simp add: extract_nodes_def Let_def)
  qed
qed

lemma verify_cases:
  obtains
    (none) "step (state self) \<noteq> ''VERIFY''" "step (state self) \<noteq> ''COMPLETED''"
      "verify env (self, w) = (Inr None, self, w)"
  | (call) "step (state self) = ''VERIFY'' \<or> step (state self) = ''COMPLETED''"
      "verify env (self, w) =
         (map_sum id Some (fst (verify_toc env (toc_segments (state self)) (opt self) (ext w))),
          self,
          w\<lparr>trace := trace w @ [verify_call self w],
            ext := snd (verify_toc env (toc_segments (state self)) (opt self) (ext w))\<rparr>)"
proof (cases "step (state self) = ''VERIFY'' \<or> step (state self) = ''COMPLETED''")
  case False
  then show ?thesis using none by (simp add: verify_def)
next
  case True
  then show ?thesis using call
    by (cases "fst (verify_toc env (toc_segments (state self)) (opt self) (ext w))")
      (auto simp: verify_def call_with_backoff_eq)
qed

lemma run_cases:
  obtains
    (stop0) e s0 where "count_pages env s = (Inl e, s0)" "run env s = (Inl e, s0)"
  | (stop1) e s0 s1 where "count_pages env s = (Inr (), s0)"
      "initial_toc env s0 = (Inl e, s1)" "run env s = (Inl e, s1)"
  | (stop2) e s0 s1 s2 where "count_pages env s = (Inr (), s0)"
      "initial_toc env s0 = (Inr (), s1)" "extract_nodes env s1 = (Inl e, s2)"
      "run env s = (Inl e, s2)"
  | (verify) s0 s1 s2 where "count_pages env s = (Inr (), s0)"
      "initial_toc env s0 = (Inr (), s1)" "extract_nodes env s1 = (Inr (), s2)"
      "run env s = verify env s2"
proof -
  obtain r0 s0 where 0: "count_pages env s = (r0, s0)" by (cases "count_pages env s")
  obtain r1 s1 where 1: "initial_toc env s0 = (r1, s1)" by (cases "initial_toc env s0")
  obtain r2 s2 where 2: "extract_nodes env s1 = (r2, s2)" by (cases "extract_nodes env s1")
  show ?thesis
  proof (cases r0)
    case (Inl e)
    with 0 show ?thesis using stop0 by (simp add: run_def)
  next
    case r0: (Inr u0)
    show ?thesis
    proof (cases r1)
      case (Inl e)
      with 0 r0 1 show ?thesis using stop1 by (simp add: run_def)
    next
      case r1: (Inr u1)
      show ?thesis
      proof (cases r2)
        case (Inl e)
        with 0 r0 1 r1 2 show ?thesis using stop2 by (simp add: run_def)
      next
        case (Inr u2)
        with 0 r0 1 r1 2 show ?thesis using verify by (simp add: run_def)
      qed
    qed
  qed
qed

lemma verification_calls_append [simp]:
  "verification_calls (es @ fs) = verification_calls es @ verification_calls fs"
  by (induction es rule: verification_calls.induct) simp_all

lemma saved_states_append [simp]:
  "saved_states (es @ fs) = saved_states es @ saved_states fs"
  by (induction es rule: saved_states.induct) simp_all

section \<open>A run on a completed state\<close>

lemma count_pages_keeps:
  assumes "count_pages env (self, w) = (r, self0, w0)"
  shows "\<exists>es. trace w0 = trace w @ es \<and> extraction_calls es = [] \<and>
    verification_calls es = [] \<and> step (state self0) = step (state self) \<and>
    toc_segments (state self0) = toc_segments (state self) \<and>
    completed_groups (state self0) = completed_groups (state self) \<and>
    opt self0 = opt self \<and> pdf_path self0 = pdf_path self \<and>
    state_path self0 = state_path self"
proof (cases rule: count_pages_cases[of self env w])
  case skip
  with assms show ?thesis by simp
next
  case (no_count e)
  with assms show ?thesis by simp
next
  case (no_groups n e)
  with assms show ?thesis by auto
next
  case (save n g)
  let ?self1 = "self\<lparr>state := (state self)\<lparr>total_pages := n, total_groups := g\<rparr>\<rparr>"
  show ?thesis
    by (cases rule: save_state_cases[of env ?self1 w]) (use save(4) assms in auto)
qed

text \<open>
  C8. A run on a state in step \<^verbatim>\<open>COMPLETED\<close>, once step 0 is past (it does nothing
  when the page count is known), issues no extraction call and exactly one verification
  call, over the stored segments, and returns what that call returns: the structure that
  the \<^verbatim>\<open>VERIFY\<close> step returns on the same segments.
\<close>

theorem completed_run_reverifies:
  assumes "step (state self) = ''COMPLETED''"
    and "count_pages env (self, w) = (Inr (), self0, w0)"
    and "run env (self, w) = (r, self', w')"
  shows "\<exists>es. trace w' = trace w @ es \<and> extraction_calls es = [] \<and>
    verification_calls es = [toc_segments (state self)] \<and>
    r = map_sum id Some (fst (verify_toc env (toc_segments (state self)) (opt self) (ext w0))) \<and>
    (total_pages (state self) \<noteq> 0 \<longrightarrow>
       w0 = w \<and> fst (run env (self\<lparr>state := (state self)\<lparr>step := ''VERIFY''\<rparr>\<rparr>, w)) = r)"
proof -
  from count_pages_keeps[OF assms(2)] obtain es0 where es0: "trace w0 = trace w @ es0"
    "extraction_calls es0 = []" "verification_calls es0 = []"
    "step (state self0) = step (state self)"
    "toc_segments (state self0) = toc_segments (state self)" "opt self0 = opt self"
    by blast
  have c: "step (state self0) = ''COMPLETED''" using es0(4) assms(1) by simp
  have i: "initial_toc env (self0, w0) = (Inr (), self0, w0)"
    using c by (simp add: initial_toc_def)
  have e: "extract_nodes env (self0, w0) = (Inr (), self0, w0)"
    using c by (simp add: extract_nodes_def)
  have v: "run env (self, w) = verify env (self0, w0)"
    using assms(2) i e by (simp add: run_def)
  let ?x = "verify_toc env (toc_segments (state self)) (opt self) (ext w0)"
  have "verify env (self0, w0) =
      (map_sum id Some (fst ?x), self0, w0\<lparr>trace := trace w0 @ [verify_call self0 w0], ext := snd ?x\<rparr>)"
    by (cases rule: verify_cases[of self0 env w0]) (use c es0(5,6) in simp_all)
  with v assms(3) have r: "r = map_sum id Some (fst ?x)"
    and t: "trace w' = trace w @ (es0 @ [verify_call self0 w0])"
    using es0(1) by auto
  have calls: "extraction_calls (es0 @ [verify_call self0 w0]) = []"
    "verification_calls (es0 @ [verify_call self0 w0]) = [toc_segments (state self)]"
    using es0(2,3,5) by simp_all
  have same: "w0 = w \<and> fst (run env (self\<lparr>state := (state self)\<lparr>step := ''VERIFY''\<rparr>\<rparr>, w)) = r"
    if "total_pages (state self) \<noteq> 0"
  proof -
    from that assms(2) have w: "w0 = w" by (simp add: count_pages_def)
    have "run env (self\<lparr>state := (state self)\<lparr>step := ''VERIFY''\<rparr>\<rparr>, w) =
        verify env (self\<lparr>state := (state self)\<lparr>step := ''VERIFY''\<rparr>\<rparr>, w)"
      using that by (simp add: run_def count_pages_def initial_toc_def extract_nodes_def)
    then have "fst (run env (self\<lparr>state := (state self)\<lparr>step := ''VERIFY''\<rparr>\<rparr>, w)) =
        map_sum id Some (fst (verify_toc env (toc_segments (state self)) (opt self) (ext w)))"
      by (cases "fst (verify_toc env (toc_segments (state self)) (opt self) (ext w))")
        (simp_all add: verify_def call_with_backoff_eq)
    with r w show ?thesis by simp
  qed
  show ?thesis
    by (rule exI[of _ "es0 @ [verify_call self0 w0]"]) (use t calls r same in simp)
qed

theorem completed_run_reverifies_witness:
  "step (state finished) = ''COMPLETED'' \<and>
   count_pages (reliable 23) (finished, blank) = (Inr (), finished, blank) \<and>
   extraction_calls (trace (snd (snd (run (reliable 23) (finished, blank))))) = [] \<and>
   verification_calls (trace (snd (snd (run (reliable 23) (finished, blank))))) =
     [[''segment 1'', ''segment 2'', ''segment 3'']] \<and>
   fst (run (reliable 23) (finished, blank)) =
     Inr (Some [''segment 1'', ''segment 2'', ''segment 3''])"
proof -
  let ?r = "run (reliable 23) (finished, blank)"
  have h: "step (state finished) = ''COMPLETED''"
    "count_pages (reliable 23) (finished, blank) = (Inr (), finished, blank)"
    by (simp_all add: finished_def count_pages_def)
  have p: "?r = (fst ?r, fst (snd ?r), snd (snd ?r))" by simp
  from completed_run_reverifies[OF h p] obtain es where es:
    "trace (snd (snd ?r)) = trace blank @ es" "extraction_calls es = []"
    "verification_calls es = [toc_segments (state finished)]"
    "fst ?r = map_sum id Some
       (fst (verify_toc (reliable 23) (toc_segments (state finished)) (opt finished) (ext blank)))"
    by blast
  have b: "trace blank = []" by (simp add: blank_def)
  from es h show ?thesis
    unfolding b by (simp add: finished_def reliable_def)
qed

section \<open>A document without pages\<close>

lemma group_count_zero: "g \<noteq> 0 \<Longrightarrow> group_count 0 g = Inr 0"
  by (simp add: group_count_def int_truediv_def math_ceil_def)

lemma save_state_keeps:
  assumes "save_state env (self, w) = (r, self', w')"
  shows "self' = self \<and> (\<exists>es. trace w' = trace w @ es \<and> extraction_calls es = [] \<and>
    verification_calls es = [])"
  by (cases rule: save_state_cases[of env self w]) (use assms in auto)

lemma initial_toc_keeps:
  assumes "initial_toc env (self, w) = (r, self', w')"
  shows "\<exists>es. trace w' = trace w @ es \<and> extraction_calls es = [] \<and>
    total_groups (state self') = total_groups (state self) \<and>
    (step (state self) \<noteq> ''INITIALIZE'' \<longrightarrow> step (state self') = step (state self)) \<and>
    (step (state self) = ''INITIALIZE'' \<and> r = Inr () \<longrightarrow> step (state self') = ''EXTRACT_NODES'')"
proof (cases rule: initial_toc_cases[of self env w])
  case skip
  with assms show ?thesis by simp
next
  case (call_failed e x)
  with assms show ?thesis by auto
next
  case (save x)
  let ?self1 = "self\<lparr>state := (state self)\<lparr>step := ''EXTRACT_NODES''\<rparr>\<rparr>"
  let ?w1 = "w\<lparr>trace := trace w @ [init_call self w], ext := x\<rparr>"
  from save(2) assms have s: "save_state env (?self1, ?w1) = (r, self', w')" by simp
  from save_state_keeps[OF s] obtain es where es: "self' = ?self1" "trace w' = trace ?w1 @ es"
    "extraction_calls es = []" by blast
  have "trace w' = trace w @ ([init_call self w] @ es)" using es(2) by simp
  moreover have "extraction_calls ([init_call self w] @ es) = []" using es(3) by simp
  ultimately show ?thesis using es(1) save(1)
    by (intro exI[of _ "[init_call self w] @ es"]) simp
qed

lemma extract_nodes_no_groups:
  assumes "step (state self) = ''EXTRACT_NODES''" "total_groups (state self) \<le> 0"
  shows "extract_nodes env (self, w) =
    save_state env (self\<lparr>state := (state self)\<lparr>step := ''VERIFY''\<rparr>\<rparr>, w)"
  using assms by (simp add: extract_nodes_def)

lemma extract_nodes_no_groups_keeps:
  assumes "total_groups (state self) = 0" "extract_nodes env (self, w) = (r, self', w')"
  shows "\<exists>es. trace w' = trace w @ es \<and> extraction_calls es = [] \<and>
    total_groups (state self') = 0 \<and>
    (step (state self) \<noteq> ''EXTRACT_NODES'' \<longrightarrow> step (state self') = step (state self)) \<and>
    (step (state self) = ''EXTRACT_NODES'' \<longrightarrow> step (state self') = ''VERIFY'')"
proof (cases "step (state self) = ''EXTRACT_NODES''")
  case False
  with assms show ?thesis by (simp add: extract_nodes_def)
next
  case True
  let ?self1 = "self\<lparr>state := (state self)\<lparr>step := ''VERIFY''\<rparr>\<rparr>"
  from extract_nodes_no_groups[OF True, of env w] assms
  have "save_state env (?self1, w) = (r, self', w')" by simp
  from save_state_keeps[OF this] True assms(1) show ?thesis by auto
qed

lemma verify_keeps:
  assumes "verify env (self, w) = (r, self', w')"
  shows "self' = self \<and> (\<exists>es. trace w' = trace w @ es \<and> extraction_calls es = [])"
  by (cases rule: verify_cases[of self env w]) (use assms in auto)

text \<open>
  C6. For a document of zero pages (and a group size other than zero) step 0 stores a
  group count of 0. With no groups, step 2 consists of saving the state in step
  \<^verbatim>\<open>VERIFY\<close>. A run on such a document issues no extraction call, and when it
  returns from a state in step \<^verbatim>\<open>INITIALIZE\<close> or \<^verbatim>\<open>EXTRACT_NODES\<close> it ends in step
  \<^verbatim>\<open>VERIFY\<close> with a group count of 0.
\<close>

theorem zero_pages_no_extraction:
  assumes "total_pages (state self) = 0"
    and "get_number_of_pages env (pdf_path self) = Inr 0"
    and "max_page_num_each_node (opt self) \<noteq> 0"
    and "run env (self, w) = (r, self', w')"
  shows "count_pages env (self, w) =
      save_state env (self\<lparr>state := (state self)\<lparr>total_pages := 0, total_groups := 0\<rparr>\<rparr>, w) \<and>
    (step (state self) = ''EXTRACT_NODES'' \<and> total_groups (state self) = 0 \<longrightarrow>
       extract_nodes env (self, w) =
         save_state env (self\<lparr>state := (state self)\<lparr>step := ''VERIFY''\<rparr>\<rparr>, w)) \<and>
    (\<exists>es. trace w' = trace w @ es \<and> extraction_calls es = [] \<and>
      (isl r \<or>
       step (state self) \<noteq> ''INITIALIZE'' \<and> step (state self) \<noteq> ''EXTRACT_NODES'' \<or>
       total_groups (state self') = 0 \<and> step (state self') = ''VERIFY''))"
proof -
  let ?self1 = "self\<lparr>state := (state self)\<lparr>total_pages := 0, total_groups := 0\<rparr>\<rparr>"
  have c: "count_pages env (self, w) = save_state env (?self1, w)"
    using assms(1-3) by (simp add: count_pages_def group_count_zero Let_def)
  have e: "step (state self) = ''EXTRACT_NODES'' \<and> total_groups (state self) = 0 \<longrightarrow>
      extract_nodes env (self, w) =
        save_state env (self\<lparr>state := (state self)\<lparr>step := ''VERIFY''\<rparr>\<rparr>, w)"
    by (simp add: extract_nodes_no_groups)
  have zero: "self0 = ?self1 \<and> (\<exists>es. trace w0 = trace w @ es \<and> extraction_calls es = [])"
    if "count_pages env (self, w) = (r0, self0, w0)" for r0 self0 w0
    using save_state_keeps[of env ?self1 w r0 self0 w0] that c by auto
  have "\<exists>es. trace w' = trace w @ es \<and> extraction_calls es = [] \<and>
      (isl r \<or>
       step (state self) \<noteq> ''INITIALIZE'' \<and> step (state self) \<noteq> ''EXTRACT_NODES'' \<or>
       total_groups (state self') = 0 \<and> step (state self') = ''VERIFY'')"
  proof (cases rule: run_cases[of env "(self, w)"])
    case (stop0 e s0)
    with zero[of "Inl e" "fst s0" "snd s0"] assms(4) show ?thesis by auto
  next
    case (stop1 e s0 s1)
    from zero[of "Inr ()" "fst s0" "snd s0"] stop1(1) obtain es0 where
      0: "fst s0 = ?self1" "trace (snd s0) = trace w @ es0" "extraction_calls es0 = []"
      by auto
    from initial_toc_keeps[of env "fst s0" "snd s0" "Inl e" "fst s1" "snd s1"] stop1(2)
    obtain es1 where 1: "trace (snd s1) = trace (snd s0) @ es1" "extraction_calls es1 = []"
      by auto
    from stop1(3) assms(4) have "r = Inl e" "w' = snd s1" by auto
    with 0 1 show ?thesis by (intro exI[of _ "es0 @ es1"]) simp
  next
    case (stop2 e s0 s1 s2)
    from zero[of "Inr ()" "fst s0" "snd s0"] stop2(1) obtain es0 where
      0: "fst s0 = ?self1" "trace (snd s0) = trace w @ es0" "extraction_calls es0 = []"
      by auto
    from initial_toc_keeps[of env "fst s0" "snd s0" "Inr ()" "fst s1" "snd s1"] stop2(2)
    obtain es1 where 1: "trace (snd s1) = trace (snd s0) @ es1" "extraction_calls es1 = []"
      "total_groups (state (fst s1)) = total_groups (state (fst s0))"
      by auto
    have g: "total_groups (state (fst s1)) = 0" using 1(3) 0(1) by simp
    from extract_nodes_no_groups_keeps[OF g, of env "snd s1" "Inl e" "fst s2" "snd s2"] stop2(3)
    obtain es2 where 2: "trace (snd s2) = trace (snd s1) @ es2" "extraction_calls es2 = []"
      by auto
    from stop2(4) assms(4) have "r = Inl e" "w' = snd s2" by auto
    with 0 1 2 show ?thesis by (intro exI[of _ "es0 @ es1 @ es2"]) simp
  next
    case (verify s0 s1 s2)
    from zero[of "Inr ()" "fst s0" "snd s0"] verify(1) obtain es0 where
      0: "fst s0 = ?self1" "trace (snd s0) = trace w @ es0" "extraction_calls es0 = []"
      by auto
    from initial_toc_keeps[of env "fst s0" "snd s0" "Inr ()" "fst s1" "snd s1"] verify(2)
    obtain es1 where 1: "trace (snd s1) = trace (snd s0) @ es1" "extraction_calls es1 = []"
      "total_groups (state (fst s1)) = total_groups (state (fst s0))"
      "step (state (fst s0)) \<noteq> ''INITIALIZE'' \<longrightarrow> step (state (fst s1)) = step (state (fst s0))"
      "step (state (fst s0)) = ''INITIALIZE'' \<longrightarrow> step (state (fst s1)) = ''EXTRACT_NODES''"
      by auto
    have g: "total_groups (state (fst s1)) = 0" using 1(3) 0(1) by simp
    from extract_nodes_no_groups_keeps[OF g, of env "snd s1" "Inr ()" "fst s2" "snd s2"] verify(3)
    obtain es2 where 2: "trace (snd s2) = trace (snd s1) @ es2" "extraction_calls es2 = []"
      "total_groups (state (fst s2)) = 0"
      "step (state (fst s1)) = ''EXTRACT_NODES'' \<longrightarrow> step (state (fst s2)) = ''VERIFY''"
      by auto
    from verify_keeps[of env "fst s2" "snd s2" r self' w'] verify(4) assms(4)
    obtain es3 where 3: "self' = fst s2" "trace w' = trace (snd s2) @ es3" "extraction_calls es3 = []"
      by auto
    have st: "step (state self) = ''INITIALIZE'' \<or> step (state self) = ''EXTRACT_NODES'' \<Longrightarrow>
        step (state self') = ''VERIFY''"
      using 0(1) 1(4,5) 2(4) 3(1) by auto
    from 0 1 2 3 st show ?thesis by (intro exI[of _ "es0 @ es1 @ es2 @ es3"]) auto
  qed
  with c e show ?thesis by blast
qed

text \<open>An indexer on a fresh checkpoint whose document turns out to have no pages.\<close>

theorem zero_pages_no_extraction_witness:
  "total_pages (state (fresh 10)) = 0 \<and>
   get_number_of_pages (reliable 0) (pdf_path (fresh 10)) = Inr 0 \<and>
   max_page_num_each_node (opt (fresh 10)) \<noteq> 0 \<and>
   extraction_calls (trace (snd (snd (run (reliable 0) (fresh 10, blank))))) = [] \<and>
   step (state (fst (snd (run (reliable 0) (fresh 10, blank))))) = ''VERIFY'' \<and>
   total_groups (state (fst (snd (run (reliable 0) (fresh 10, blank))))) = 0"
proof -
  let ?r = "run (reliable 0) (fresh 10, blank)"
  have h: "total_pages (state (fresh 10)) = 0"
    "get_number_of_pages (reliable 0) (pdf_path (fresh 10)) = Inr 0"
    "max_page_num_each_node (opt (fresh 10)) \<noteq> 0"
    by (simp_all add: fresh_def default_state_def reliable_def)
  have p: "?r = (fst ?r, fst (snd ?r), snd (snd ?r))" by simp
  have ok: "\<not> isl (fst ?r)" "step (state (fresh 10)) = ''INITIALIZE''"
    by (simp_all add: run_def count_pages_def initial_toc_def extract_nodes_def verify_def
        save_state_def call_with_backoff_def reliable_def blank_def fresh_def default_state_def
        group_count_zero Let_def)
  from zero_pages_no_extraction[OF h p] ok obtain es where
    "trace (snd (snd ?r)) = trace blank @ es" "extraction_calls es = []"
    "total_groups (state (fst (snd ?r))) = 0 \<and> step (state (fst (snd ?r))) = ''VERIFY''"
    by blast
  with h show ?thesis by (simp add: blank_def)
qed

section \<open>Saved states only grow\<close>

lemma advance_refl [simp]: "advance s s"
  by (simp add: advance_def extends_def)

lemma advance_trans: "advance s t \<Longrightarrow> advance t u \<Longrightarrow> advance s u"
  unfolding advance_def extends_def by (meson prefix_order.trans)

lemma chain_refl [simp]: "chain s [] s"
  by (simp add: chain_def)

lemma chain_trans:
  assumes "chain s es t" "chain t fs u"
  shows "chain s (es @ fs) u"
proof -
  have 1: "advance x t" if "x \<in> set (s # saved_states es)" for x
    using assms(1) that by (auto simp: chain_def sorted_wrt_append)
  have 2: "advance t y" if "y \<in> set (saved_states fs @ [u])" for y
    using assms(2) that by (auto simp: chain_def)
  have 3: "advance x y" if "x \<in> set (s # saved_states es)" "y \<in> set (saved_states fs @ [u])" for x y
    using 1[OF that(1)] 2[OF that(2)] by (rule advance_trans)
  have a: "sorted_wrt advance (s # saved_states es)"
    using assms(1) by (simp add: chain_def sorted_wrt_append)
  have b: "sorted_wrt advance (saved_states fs @ [u])"
    using assms(2) by (simp add: chain_def)
  have "sorted_wrt advance ((s # saved_states es) @ (saved_states fs @ [u]))"
    using a b 3 by (subst sorted_wrt_append) blast
  then show ?thesis by (simp add: chain_def)
qed

lemma filed_refl [simp]: "filed w [] w p"
  by (simp add: filed_def last_saved_def)

lemma filed_trans: "filed w es w1 p \<Longrightarrow> filed w1 fs w2 p \<Longrightarrow> filed w (es @ fs) w2 p"
  by (auto simp: filed_def last_saved_def split: if_splits)

lemma progress_refl [simp]: "progress self w [] self w"
  by (simp add: progress_def)

lemma progress_trans:
  assumes "progress self w es self1 w1" "progress self1 w1 fs self2 w2"
  shows "progress self w (es @ fs) self2 w2"
  using assms chain_trans[of "state self" es "state self1" fs "state self2"]
    filed_trans[of w es w1 "state_path self" fs w2]
  by (simp add: progress_def)

lemma progress_save:
  assumes "save_state env (self1, w) = (r, self', w')"
    and "advance (state self) (state self1)" "state_path self1 = state_path self"
  shows "\<exists>es. progress self w es self' w'"
proof (cases rule: save_state_cases[of env self1 w])
  case (written x)
  with assms show ?thesis
    by (intro exI[of _ "[Saved (state self1)]"])
      (auto simp: progress_def chain_def filed_def last_saved_def)
next
  case (open_failed x)
  with assms show ?thesis
    by (intro exI[of _ "[Save_failed]"])
      (auto simp: progress_def chain_def filed_def last_saved_def)
next
  case (dump_failed x)
  with assms show ?thesis
    by (intro exI[of _ "[Save_failed]"])
      (auto simp: progress_def chain_def filed_def last_saved_def)
qed

lemma progress_call: "progress self w [Call c st f] self (w\<lparr>trace := trace w @ [Call c st f], ext := x\<rparr>)"
  by (simp add: progress_def chain_def filed_def last_saved_def)

lemma advance_totals [simp]:
  "advance s (s\<lparr>total_pages := n\<rparr>)" "advance s (s\<lparr>total_pages := n, total_groups := g\<rparr>)"
  "advance s (s\<lparr>step := ''EXTRACT_NODES''\<rparr>)" "advance s (s\<lparr>step := ''VERIFY''\<rparr>)"
  by (simp_all add: advance_def extends_def balanced_def)

lemma advance_appended [simp]:
  "advance s (s\<lparr>toc_segments := toc_segments s @ [seg],
     completed_groups := completed_groups s @ [g]\<rparr>)"
  by (simp add: advance_def extends_def balanced_def)

lemma count_pages_progress:
  assumes "count_pages env (self, w) = (r, self', w')"
  shows "\<exists>es. progress self w es self' w'"
proof (cases rule: count_pages_cases[of self env w])
  case skip
  with assms show ?thesis by (intro exI[of _ "[]"]) simp
next
  case (no_count e)
  with assms show ?thesis by (intro exI[of _ "[]"]) simp
next
  case (no_groups n e)
  with assms show ?thesis
    by (intro exI[of _ "[]"]) (auto simp: progress_def chain_def)
next
  case (save n g)
  let ?self1 = "self\<lparr>state := (state self)\<lparr>total_pages := n, total_groups := g\<rparr>\<rparr>"
  from save(4) assms have "save_state env (?self1, w) = (r, self', w')" by simp
  from progress_save[OF this, of self] show ?thesis by simp
qed

lemma initial_toc_progress:
  assumes "initial_toc env (self, w) = (r, self', w')"
  shows "\<exists>es. progress self w es self' w'"
proof (cases rule: initial_toc_cases[of self env w])
  case skip
  with assms show ?thesis by (intro exI[of _ "[]"]) simp
next
  case (call_failed e x)
  with assms have "progress self w [init_call self w] self' w'"
    by (auto simp: progress_call)
  then show ?thesis ..
next
  case (save x)
  let ?w1 = "w\<lparr>trace := trace w @ [init_call self w], ext := x\<rparr>"
  let ?self1 = "self\<lparr>state := (state self)\<lparr>step := ''EXTRACT_NODES''\<rparr>\<rparr>"
  from save(2) assms have "save_state env (?self1, ?w1) = (r, self', w')" by simp
  from progress_save[OF this, of self] obtain es where "progress self ?w1 es self' w'"
    by auto
  from progress_trans[OF progress_call this] show ?thesis by blast
qed

lemma extract_loop_progress:
  assumes "extract_loop env is (self, w) = (r, self', w')"
  shows "\<exists>es. progress self w es self' w'"
  using assms
proof (induction "is" arbitrary: self w)
  case Nil
  then show ?case by (intro exI[of _ "[]"]) simp
next
  case (Cons i "is")
  show ?case
  proof (cases rule: extract_loop_Cons_cases[of i self env "is" w])
    case skip
    with Cons show ?thesis by simp
  next
    case (call_failed e x)
    with Cons.prems have "progress self w [continue_call self w i] self' w'"
      by (auto simp: progress_call)
    then show ?thesis ..
  next
    case (save_failed seg w2)
    with Cons.prems have "progress self w [continue_call self w i, Save_failed] self' w'"
      by (auto simp: progress_def chain_def filed_def last_saved_def)
    then show ?thesis ..
  next
    case (continue seg w2)
    have 1: "progress self w [continue_call self w i, Saved (state (appended self i seg))]
        (appended self i seg) w2"
      using continue(3,4) by (simp add: progress_def chain_def filed_def last_saved_def)
    from continue(2) Cons.prems have "extract_loop env is (appended self i seg, w2) = (r, self', w')"
      by simp
    from Cons.IH[OF this] obtain es where "progress (appended self i seg) w2 es self' w'" ..
    from progress_trans[OF 1 this] show ?thesis ..
  qed
qed

lemma extract_nodes_progress:
  assumes "extract_nodes env (self, w) = (r, self', w')"
  shows "\<exists>es. progress self w es self' w'"
proof (cases rule: extract_nodes_cases[of self env w])
  case skip
  with assms show ?thesis by (intro exI[of _ "[]"]) simp
next
  case (loop_failed e self1 w1)
  with assms extract_loop_progress[OF loop_failed(2)] show ?thesis by simp
next
  case (save self1 w1)
  from extract_loop_progress[OF save(2)] obtain es where 1: "progress self w es self1 w1" ..
  let ?self2 = "self1\<lparr>state := (state self1)\<lparr>step := ''VERIFY''\<rparr>\<rparr>"
  from save(3) assms have "save_state env (?self2, w1) = (r, self', w')" by simp
  from progress_save[OF this, of self1] obtain fs where "progress self1 w1 fs self' w'"
    by auto
  from progress_trans[OF 1 this] show ?thesis ..
qed

lemma verify_progress:
  assumes "verify env (self, w) = (r, self', w')"
  shows "\<exists>es. progress self w es self' w'"
proof (cases rule: verify_cases[of self env w])
  case none
  with assms show ?thesis by (intro exI[of _ "[]"]) simp
next
  case call
  with assms have "progress self w [verify_call self w] self' w'"
    by (auto simp: progress_call)
  then show ?thesis ..
qed

lemma run_progress:
  assumes "run env (self, w) = (r, self', w')"
  shows "\<exists>es. progress self w es self' w'"
proof (cases rule: run_cases[of env "(self, w)"])
  case (stop0 e s0)
  with assms count_pages_progress[of env self w "Inl e" "fst s0" "snd s0"] show ?thesis by auto
next
  case (stop1 e s0 s1)
  from count_pages_progress[of env self w "Inr ()" "fst s0" "snd s0"] stop1(1)
  obtain es0 where 0: "progress self w es0 (fst s0) (snd s0)" by auto
  from initial_toc_progress[of env "fst s0" "snd s0" "Inl e" "fst s1" "snd s1"] stop1(2)
  obtain es1 where 1: "progress (fst s0) (snd s0) es1 (fst s1) (snd s1)" by auto
  from stop1(3) assms have "self' = fst s1" "w' = snd s1" by auto
  with progress_trans[OF 0 1] show ?thesis by blast
next
  case (stop2 e s0 s1 s2)
  from count_pages_progress[of env self w "Inr ()" "fst s0" "snd s0"] stop2(1)
  obtain es0 where 0: "progress self w es0 (fst s0) (snd s0)" by auto
  from initial_toc_progress[of env "fst s0" "snd s0" "Inr ()" "fst s1" "snd s1"] stop2(2)
  obtain es1 where 1: "progress (fst s0) (snd s0) es1 (fst s1) (snd s1)" by auto
  from extract_nodes_progress[of env "fst s1" "snd s1" "Inl e" "fst s2" "snd s2"] stop2(3)
  obtain es2 where 2: "progress (fst s1) (snd s1) es2 (fst s2) (snd s2)" by auto
  from stop2(4) assms have "self' = fst s2" "w' = snd s2" by auto
  with progress_trans[OF progress_trans[OF 0 1] 2] show ?thesis by blast
next
  case (verify s0 s1 s2)
  from count_pages_progress[of env self w "Inr ()" "fst s0" "snd s0"] verify(1)
  obtain es0 where 0: "progress self w es0 (fst s0) (snd s0)" by auto
  from initial_toc_progress[of env "fst s0" "snd s0" "Inr ()" "fst s1" "snd s1"] verify(2)
  obtain es1 where 1: "progress (fst s0) (snd s0) es1 (fst s1) (snd s1)" by auto
  from extract_nodes_progress[of env "fst s1" "snd s1" "Inr ()" "fst s2" "snd s2"] verify(3)
  obtain es2 where 2: "progress (fst s1) (snd s1) es2 (fst s2) (snd s2)" by auto
  from verify_progress[of env "fst s2" "snd s2" r self' w'] verify(4) assms
  obtain es3 where 3: "progress (fst s2) (snd s2) es3 self' w'" by auto
  from progress_trans[OF progress_trans[OF progress_trans[OF 0 1] 2] 3] show ?thesis by blast
qed

section \<open>The checkpoint over the invocations on a document\<close>

lemma sorted_wrt_advance_last:
  assumes "sorted_wrt advance xs" "x \<in> set xs"
  shows "advance x (last xs)"
proof (cases "xs = []")
  case True
  with assms show ?thesis by simp
next
  case False
  then have xs: "xs = butlast xs @ [last xs]" by simp
  with assms(1) have "\<forall>y\<in>set (butlast xs). advance y (last xs)"
    by (metis sorted_wrt_append list.set_intros(1))
  moreover from xs assms(2) have "x \<in> set (butlast xs) \<or> x = last xs"
    by (metis Un_iff empty_iff empty_set set_ConsD set_append)
  ultimately show ?thesis by auto
qed

lemma loaded_last_saved: "loaded (last_saved c es) = last (loaded c # saved_states es)"
  by (simp add: loaded_def last_saved_def)

lemma lifetime_corrupt:
  assumes "disk w (path_join work_dir (basename pdf @ ''_state.json'')) = Some Undecodable"
  shows "lifetime envs pdf options work_dir w = w"
  using assms
  by (induction envs) (simp_all add: invoke_def indexer_init_def load_state_def Let_def)

lemma invoke_progress:
  assumes "p = path_join work_dir (basename pdf @ ''_state.json'')"
  shows "\<exists>es. trace (snd (invoke env pdf options work_dir w)) = trace w @ es \<and>
    sorted_wrt advance (loaded (disk w p) # saved_states es) \<and>
    filed w es (snd (invoke env pdf options work_dir w)) p"
proof (cases "indexer_init pdf options work_dir w")
  case (Inl e)
  then show ?thesis by (intro exI[of _ "[]"]) (simp add: invoke_def)
next
  case (Inr self)
  then have s: "state_path self = p" "state self = loaded (disk w p)"
    using assms
    by (auto simp: indexer_init_def load_state_def loaded_def Let_def
        split: option.splits checkpoint.splits)
  obtain r self' w' where r: "run env (self, w) = (r, self', w')"
    by (metis prod_cases3)
  from run_progress[OF r] obtain es where es: "progress self w es self' w'" ..
  have w': "snd (invoke env pdf options work_dir w) = w'"
    using Inr r by (simp add: invoke_def)
  from es have "sorted_wrt advance (state self # saved_states es)"
    by (simp add: progress_def chain_def sorted_wrt_append)
  with es s show ?thesis
    unfolding w' by (intro exI[of _ es]) (simp add: progress_def)
qed

lemma lifetime_progress:
  assumes "p = path_join work_dir (basename pdf @ ''_state.json'')"
  shows "\<exists>es. trace (lifetime envs pdf options work_dir w) = trace w @ es \<and>
    sorted_wrt advance (loaded (disk w p) # saved_states es) \<and>
    filed w es (lifetime envs pdf options work_dir w) p"
proof (induction envs arbitrary: w)
  case Nil
  show ?case by (intro exI[of _ "[]"]) simp
next
  case (Cons env envs)
  let ?w1 = "snd (invoke env pdf options work_dir w)"
  let ?w2 = "lifetime envs pdf options work_dir ?w1"
  from invoke_progress[OF assms, of env options w] obtain es1 where 1:
    "trace ?w1 = trace w @ es1" "sorted_wrt advance (loaded (disk w p) # saved_states es1)"
    "filed w es1 ?w1 p" by blast
  from Cons.IH[of ?w1] obtain es2 where 2:
    "trace ?w2 = trace ?w1 @ es2" "sorted_wrt advance (loaded (disk ?w1 p) # saved_states es2)"
    "filed ?w1 es2 ?w2 p" by blast
  have t: "trace ?w2 = trace w @ (es1 @ es2)" using 1(1) 2(1) by simp
  have f: "filed w (es1 @ es2) ?w2 p" using 1(3) 2(3) by (rule filed_trans)
  have c: "sorted_wrt advance (loaded (disk w p) # saved_states (es1 @ es2))"
  proof (cases "disk ?w1 p = Some Undecodable")
    case True
    then have "?w2 = ?w1" using assms lifetime_corrupt by metis
    with 2(1) have "es2 = []" by simp
    with 1(2) show ?thesis by simp
  next
    case False
    with 1(3) have "disk ?w1 p = last_saved (disk w p) es1" by (simp add: filed_def)
    then have l: "loaded (disk ?w1 p) = last (loaded (disk w p) # saved_states es1)"
      by (simp only: loaded_last_saved)
    have "advance x y"
      if "x \<in> set (loaded (disk w p) # saved_states es1)" "y \<in> set (saved_states es2)" for x y
    proof -
      have "advance x (loaded (disk ?w1 p))"
        unfolding l using 1(2) that(1) by (rule sorted_wrt_advance_last)
      moreover have "advance (loaded (disk ?w1 p)) y" using 2(2) that(2) by simp
      ultimately show ?thesis by (rule advance_trans)
    qed
    moreover have "sorted_wrt advance (saved_states es2)" using 2(2) by simp
    ultimately have "sorted_wrt advance ((loaded (disk w p) # saved_states es1) @ saved_states es2)"
      using 1(2) by (subst sorted_wrt_append) blast
    then show ?thesis by simp
  qed
  from t c f show ?case by (intro exI[of _ "es1 @ es2"]) simp
qed

text \<open>
  C9. Over any number of invocations on one document, whatever fails in each of them: if
  the checkpoint found at the start, when there is one, has as many segments as completed
  groups, then so has every state saved; and each state saved keeps, in place, all
  segments and completed groups of the state found at the start and of every state saved
  before it. In the end the checkpoint file is undecodable, or it holds the last state
  saved, or it is as it was found when nothing was saved.
\<close>

theorem checkpoint_only_grows:
  assumes "p = path_join work_dir (basename pdf @ ''_state.json'')"
    and "balanced (loaded (disk w p))"
  shows "\<exists>es. trace (lifetime envs pdf options work_dir w) = trace w @ es \<and>
    list_all balanced (saved_states es) \<and>
    sorted_wrt extends (loaded (disk w p) # saved_states es) \<and>
    filed w es (lifetime envs pdf options work_dir w) p"
proof -
  from lifetime_progress[OF assms(1), of envs options w] obtain es where es:
    "trace (lifetime envs pdf options work_dir w) = trace w @ es"
    "sorted_wrt advance (loaded (disk w p) # saved_states es)"
    "filed w es (lifetime envs pdf options work_dir w) p" by blast
  from es(2) assms(2) have "list_all balanced (saved_states es)"
    by (auto simp: list_all_iff advance_def)
  moreover have "sorted_wrt extends (loaded (disk w p) # saved_states es)"
    using es(2) by (rule sorted_wrt_mono_rel[rotated]) (simp add: advance_def)
  ultimately show ?thesis using es(1,3) by (intro exI[of _ es]) simp
qed

lemmas lifetime_simps =
  invoke_def indexer_init_def load_state_def run_def count_pages_def
  initial_toc_def extract_nodes_def verify_def save_state_def call_with_backoff_def
  reliable_def interrupted_def blank_def default_state_def group_count_23 upto_1_3 str_123
  example_state_path Let_def

lemma two_runs:
  "map (\<lambda>s. (step s, completed_groups s))
     (saved_states (trace (lifetime [interrupted 23, reliable 23] ''/a/doc.pdf''
        \<lparr>max_page_num_each_node = 10\<rparr> ''./tmp'' blank))) =
   [(''INITIALIZE'', []), (''EXTRACT_NODES'', []), (''EXTRACT_NODES'', [''1'']),
    (''EXTRACT_NODES'', [''1'', ''2'']), (''EXTRACT_NODES'', [''1'', ''2'', ''3'']),
    (''VERIFY'', [''1'', ''2'', ''3''])]"
  by (simp add: lifetime_simps)

theorem checkpoint_only_grows_witness:
  "balanced (loaded (disk blank ''./tmp/doc.pdf_state.json'')) \<and>
   length (saved_states (trace (lifetime [interrupted 23, reliable 23] ''/a/doc.pdf''
        \<lparr>max_page_num_each_node = 10\<rparr> ''./tmp'' blank))) = 6 \<and>
   list_all balanced (saved_states (trace (lifetime [interrupted 23, reliable 23] ''/a/doc.pdf''
        \<lparr>max_page_num_each_node = 10\<rparr> ''./tmp'' blank))) \<and>
   sorted_wrt extends (saved_states (trace (lifetime [interrupted 23, reliable 23] ''/a/doc.pdf''
        \<lparr>max_page_num_each_node = 10\<rparr> ''./tmp'' blank)))"
proof -
  let ?w = "lifetime [interrupted 23, reliable 23] ''/a/doc.pdf''
        \<lparr>max_page_num_each_node = 10\<rparr> ''./tmp'' blank"
  have b: "balanced (loaded (disk blank ''./tmp/doc.pdf_state.json''))"
    by (simp add: blank_def loaded_def default_state_def balanced_def)
  have t: "trace blank = []" by (simp add: blank_def)
  from checkpoint_only_grows[OF example_state_path[symmetric] b,
      of "[interrupted 23, reliable 23]" "\<lparr>max_page_num_each_node = 10\<rparr>"]
  obtain es where es: "trace ?w = es" "list_all balanced (saved_states es)"
    "sorted_wrt extends (loaded (disk blank ''./tmp/doc.pdf_state.json'') # saved_states es)"
    unfolding t by auto
  have "length (map (\<lambda>s. (step s, completed_groups s)) (saved_states (trace ?w))) = 6"
    unfolding two_runs by simp
  then have "length (saved_states (trace ?w)) = 6" by simp
  with b es show ?thesis by simp
qed

section \<open>Documents with the same basename\<close>

text \<open>
  C10. The indexer names the document by the basename of its path and keeps the
  checkpoint at \<^verbatim>\<open>work_dir/<basename>_state.json\<close>. Two documents with the same
  basename therefore get the same checkpoint path and load the same state; and after an
  invocation on the first that saved anything and left the file decodable, the indexer of
  the second starts from the last state that invocation saved.
\<close>

theorem same_basename_same_checkpoint:
  assumes "basename pdf1 = basename pdf2"
    and "p = path_join work_dir (basename pdf1 @ ''_state.json'')"
    and "w1 = snd (invoke env pdf1 options work_dir w)"
  shows "(case indexer_init pdf1 options work_dir w of
       Inl e \<Rightarrow> indexer_init pdf2 options work_dir w = Inl e
     | Inr self \<Rightarrow>
         doc_name self = basename pdf1 \<and> state_path self = p \<and>
         indexer_init pdf2 options work_dir w = Inr (self\<lparr>pdf_path := pdf2\<rparr>)) \<and>
    (\<exists>es. trace w1 = trace w @ es \<and>
       (saved_states es \<noteq> [] \<and> disk w1 p \<noteq> Some Undecodable \<longrightarrow>
          map_sum id state (indexer_init pdf2 options2 work_dir w1) =
            Inr (last (saved_states es))))"
proof -
  have a: "case indexer_init pdf1 options work_dir w of
       Inl e \<Rightarrow> indexer_init pdf2 options work_dir w = Inl e
     | Inr self \<Rightarrow>
         doc_name self = basename pdf1 \<and> state_path self = p \<and>
         indexer_init pdf2 options work_dir w = Inr (self\<lparr>pdf_path := pdf2\<rparr>)"
    using assms(1,2)
    by (cases "load_state (path_join work_dir (basename pdf2 @ ''_state.json'')) w")
      (simp_all add: indexer_init_def Let_def)
  from invoke_progress[OF assms(2), of env options w] obtain es where es:
    "trace w1 = trace w @ es" "filed w es w1 p"
    unfolding assms(3) by blast
  have "map_sum id state (indexer_init pdf2 options2 work_dir w1) = Inr (last (saved_states es))"
    if "saved_states es \<noteq> []" "disk w1 p \<noteq> Some Undecodable"
  proof -
    from es(2) that have "disk w1 p = Some (Document (last (saved_states es)))"
      by (simp add: filed_def last_saved_def)
    then show ?thesis
      using assms(1,2) by (simp add: indexer_init_def load_state_def Let_def)
  qed
  with a es(1) show ?thesis by blast
qed

lemma interrupted_run:
  "saved_states (trace (snd (invoke (interrupted 23) ''/a/doc.pdf''
      \<lparr>max_page_num_each_node = 10\<rparr> ''./tmp'' blank))) =
    [\<lparr>step = ''INITIALIZE'', completed_groups = [], toc_segments = [],
       total_groups = 3, total_pages = 23\<rparr>,
     \<lparr>step = ''EXTRACT_NODES'', completed_groups = [], toc_segments = [],
       total_groups = 3, total_pages = 23\<rparr>,
     \<lparr>step = ''EXTRACT_NODES'', completed_groups = [''1''], toc_segments = [''segment 1''],
       total_groups = 3, total_pages = 23\<rparr>,
     state resumed]"
  "disk (snd (invoke (interrupted 23) ''/a/doc.pdf''
      \<lparr>max_page_num_each_node = 10\<rparr> ''./tmp'' blank)) ''./tmp/doc.pdf_state.json'' \<noteq>
    Some Undecodable"
  by (simp_all add: lifetime_simps resumed_def)

theorem same_basename_same_checkpoint_witness:
  "basename ''/a/doc.pdf'' = basename ''/b/doc.pdf'' \<and>
   map_sum id state
     (indexer_init ''/b/doc.pdf'' \<lparr>max_page_num_each_node = 10\<rparr> ''./tmp''
        (snd (invoke (interrupted 23) ''/a/doc.pdf''
           \<lparr>max_page_num_each_node = 10\<rparr> ''./tmp'' blank))) =
     Inr (state resumed)"
proof -
  let ?o = "\<lparr>max_page_num_each_node = 10\<rparr>"
  let ?w1 = "snd (invoke (interrupted 23) ''/a/doc.pdf'' ?o ''./tmp'' blank)"
  have b: "basename ''/a/doc.pdf'' = basename ''/b/doc.pdf''"
    by (simp add: basename_def)
  have t: "trace blank = []" by (simp add: blank_def)
  from same_basename_same_checkpoint[where env = "interrupted 23" and options = ?o
      and w = blank and ?options2.0 = ?o, OF b example_state_path[symmetric] refl]
  have "saved_states (trace ?w1) \<noteq> [] \<and> disk ?w1 ''./tmp/doc.pdf_state.json'' \<noteq> Some Undecodable \<longrightarrow>
      map_sum id state (indexer_init ''/b/doc.pdf'' ?o ''./tmp'' ?w1) =
        Inr (last (saved_states (trace ?w1)))"
    unfolding t by auto
  then have "map_sum id state (indexer_init ''/b/doc.pdf'' ?o ''./tmp'' ?w1) =
        Inr (last (saved_states (trace ?w1)))"
    using interrupted_run(2) by (simp add: interrupted_run(1))
  with b show ?thesis by (simp add: interrupted_run(1))
qed

section \<open>The step COMPLETED is never stored\<close>

text \<open>
  Over any number of invocations that start from no checkpoint, or from one in a step
  other than \<^verbatim>\<open>COMPLETED\<close>, no state saved is in step \<^verbatim>\<open>COMPLETED\<close>: no assignment
  of \<^verbatim>\<open>run\<close> produces it.
\<close>

lemma never_completed:
  assumes "p = path_join work_dir (basename pdf @ ''_state.json'')"
    and "step (loaded (disk w p)) \<noteq> ''COMPLETED''"
  shows "\<exists>es. trace (lifetime envs pdf options work_dir w) = trace w @ es \<and>
    list_all (\<lambda>s. step s \<noteq> ''COMPLETED'') (saved_states es)"
proof -
  from lifetime_progress[OF assms(1), of envs options w] obtain es where es:
    "trace (lifetime envs pdf options work_dir w) = trace w @ es"
    "sorted_wrt advance (loaded (disk w p) # saved_states es)" by blast
  from es(2) assms(2) have "list_all (\<lambda>s. step s \<noteq> ''COMPLETED'') (saved_states es)"
    by (auto simp: list_all_iff advance_def)
  with es(1) show ?thesis by blast
qed

text \<open>
  C1 holds of the specification and not of the code. Indexing a document of 23 pages
  from scratch, with no failure anywhere, returns the final structure, and the
  checkpoint is left in step \<^verbatim>\<open>VERIFY\<close>: no state saved on the way is in step
  \<^verbatim>\<open>COMPLETED\<close>.
\<close>

theorem full_run_stops_at_verify:
  "fst full_run = Inr (Some [''segment 1'', ''segment 2'', ''segment 3'']) \<and>
   disk (snd full_run) ''./tmp/doc.pdf_state.json'' =
     Some (Document \<lparr>step = ''VERIFY'', completed_groups = [''1'', ''2'', ''3''],
          toc_segments = [''segment 1'', ''segment 2'', ''segment 3''],
          total_groups = 3, total_pages = 23\<rparr>) \<and>
   map step (saved_states (trace (snd full_run))) =
     [''INITIALIZE'', ''EXTRACT_NODES'', ''EXTRACT_NODES'', ''EXTRACT_NODES'',
      ''EXTRACT_NODES'', ''VERIFY'']"
  by (simp add: full_run_simps)

end
